theory Spec2Isabelle
  imports Main "HOL-Library.Word"
begin

section \<open>Custom channel (bounded blocking queue)\<close>

text \<open>
  The Go struct \<^verbatim>\<open>Channel[G]\<close> of \<^verbatim>\<open>custom_channel/constructor.go\<close>:
  \<^verbatim>\<open>store\<close> is a \<^verbatim>\<open>container/list\<close> used as a FIFO (\<^verbatim>\<open>PushBack\<close>, \<^verbatim>\<open>Front\<close>,
  \<^verbatim>\<open>Remove\<close>), \<^verbatim>\<open>capacity\<close> is a Go \<^verbatim>\<open>int\<close> and \<^verbatim>\<open>close\<close> a \<^verbatim>\<open>bool\<close>.
  The field \<^verbatim>\<open>cond\<close> (a \<^verbatim>\<open>sync.Cond\<close> over a \<^verbatim>\<open>sync.Mutex\<close>) carries no data: every
  method holds its mutex from \<^verbatim>\<open>Lock\<close> to the deferred \<^verbatim>\<open>Unlock\<close> and gives it up
  only inside \<^verbatim>\<open>cond.Wait()\<close>. A method call is therefore a sequence of atomic
  segments: one from \<^verbatim>\<open>Lock\<close> to the first \<^verbatim>\<open>Wait\<close> (or to the return), and one from
  every wake-up to the next \<^verbatim>\<open>Wait\<close> (or to the return). Each segment is a function
  from the queue to the queue, the status of the call and the primitive actions the
  segment performed in program order.

  Go's \<^verbatim>\<open>int\<close> is taken at 64 bits: \<^verbatim>\<open>capacity\<close> is a 64-bit word read as a signed
  number (\<open>sint\<close>), so that \<^verbatim>\<open>capacity++\<close> and \<^verbatim>\<open>capacity--\<close> wrap as they do in Go.
  \<^verbatim>\<open>store.Len()\<close> is the length of the list, which is never negative.
\<close>

record 'a Channel =
  store :: "'a list"
  capacity :: "64 word"
  close :: bool

text \<open>
  What the methods need to know of the type parameter \<^verbatim>\<open>G\<close>: its zero value, and
  whether it is an interface type. The list stores each message as an \<^verbatim>\<open>any\<close>, and
  \<^verbatim>\<open>Receive\<close> converts it back with the type assertion \<^verbatim>\<open>item.Value.(G)\<close>. For an
  interface type \<^verbatim>\<open>G\<close> the nil value of \<^verbatim>\<open>G\<close>, which is its zero value, is stored as
  the nil \<^verbatim>\<open>any\<close>, and the assertion panics on it; on every other stored value, and for
  every type \<^verbatim>\<open>G\<close> that is not an interface type, the assertion succeeds.
\<close>

record 'a element_type =
  zero_value :: 'a
  is_interface :: bool

type_synonym error = string

datatype event = CapacityInc | CapacityDec | PushBack | RemoveFront | Broadcast | Wait

datatype send_status = SendReturned "error option" | SendParked

datatype 'a recv_status = RecvReturned 'a bool | RecvParked | RecvPanicked string

definition NewChannel :: "64 word \<Rightarrow> 'a Channel" where
  "NewChannel c = \<lparr>store = [], capacity = c, close = False\<rparr>"

text \<open>
  \<^verbatim>\<open>Send\<close> (source file \<^verbatim>\<open>unnamed/part_004\<close>), lines 12 to 17: the loop
  \<^verbatim>\<open>for ch.store.Len() == ch.capacity { cond.Wait() }\<close>
  followed by \<^verbatim>\<open>PushBack\<close>, \<^verbatim>\<open>Broadcast\<close> and \<^verbatim>\<open>return nil\<close>. The loop condition is the
  only thing tested after a wake-up.
\<close>

definition Send_loop :: "'a Channel \<Rightarrow> 'a \<Rightarrow> 'a Channel \<times> send_status \<times> event list" where
  "Send_loop ch message =
     (if int (length (store ch)) = sint (capacity ch) then (ch, SendParked, [Wait])
      else (ch\<lparr>store := store ch @ [message]\<rparr>, SendReturned None, [PushBack, Broadcast]))"

text \<open>\<^verbatim>\<open>Send\<close> from its entry: the closed check of lines 9 to 11, then the loop.\<close>

definition Send :: "'a Channel \<Rightarrow> 'a \<Rightarrow> 'a Channel \<times> send_status \<times> event list" where
  "Send ch message =
     (if close ch then (ch, SendReturned (Some ''channel is already closed''), [])
      else Send_loop ch message)"

text \<open>A \<^verbatim>\<open>Send\<close> parked in \<^verbatim>\<open>cond.Wait()\<close> that is woken re-enters the loop at its test.\<close>

definition Send_wake :: "'a Channel \<Rightarrow> 'a \<Rightarrow> 'a Channel \<times> send_status \<times> event list" where
  "Send_wake ch message = Send_loop ch message"

text \<open>
  \<^verbatim>\<open>Receive\<close> (the same file), lines 33 to 42: the loop
  \<^verbatim>\<open>for ch.store.Len() == 0 { cond.Wait() }\<close>, then \<^verbatim>\<open>ch.capacity--\<close>, removal of
  \<^verbatim>\<open>ch.store.Front()\<close>, the type assertion \<^verbatim>\<open>message = item.Value.(G)\<close>, \<^verbatim>\<open>Broadcast\<close> and
  \<^verbatim>\<open>return message, true\<close>. The front is read only when the list is not empty. When the
  assertion panics, the decrement and the removal have been done, the broadcast has
  not, and the call does not return a value (the deferred \<^verbatim>\<open>Unlock\<close> still runs).
\<close>

definition Receive_loop ::
  "'a element_type \<Rightarrow> 'a Channel \<Rightarrow> 'a Channel \<times> 'a recv_status \<times> event list"
where
  "Receive_loop G ch =
     (case store ch of
        [] \<Rightarrow> (ch, RecvParked, [Wait])
      | item # rest \<Rightarrow>
          if is_interface G \<and> item = zero_value G
          then (ch\<lparr>capacity := capacity ch - 1, store := rest\<rparr>,
                RecvPanicked ''interface conversion: interface is nil'',
                [CapacityDec, RemoveFront])
          else (ch\<lparr>capacity := capacity ch - 1, store := rest\<rparr>, RecvReturned item True,
                [CapacityDec, RemoveFront, Broadcast]))"

text \<open>
  \<^verbatim>\<open>Receive\<close> from its entry. The named results \<^verbatim>\<open>message\<close> and \<^verbatim>\<open>ok\<close> start as the zero
  value of \<^verbatim>\<open>G\<close> and \<^verbatim>\<open>false\<close>; they are returned unchanged when the queue is closed.
  Otherwise \<^verbatim>\<open>ch.capacity++\<close>, \<^verbatim>\<open>Broadcast\<close>, then the loop.
\<close>

definition Receive ::
  "'a element_type \<Rightarrow> 'a Channel \<Rightarrow> 'a Channel \<times> 'a recv_status \<times> event list"
where
  "Receive G ch =
     (if close ch then (ch, RecvReturned (zero_value G) False, [])
      else (case Receive_loop G (ch\<lparr>capacity := capacity ch + 1\<rparr>) of
              (ch', st, evs) \<Rightarrow> (ch', st, [CapacityInc, Broadcast] @ evs)))"

definition Receive_wake ::
  "'a element_type \<Rightarrow> 'a Channel \<Rightarrow> 'a Channel \<times> 'a recv_status \<times> event list"
where
  "Receive_wake G ch = Receive_loop G ch"

text \<open>\<^verbatim>\<open>Close\<close> of \<^verbatim>\<open>custom_channel/close.go\<close>; it never waits.\<close>

definition Close :: "'a Channel \<Rightarrow> 'a Channel \<times> error option \<times> event list" where
  "Close ch =
     (if close ch then (ch, Some ''close is already closed'', [])
      else (ch\<lparr>close := True\<rparr>, None, [Broadcast]))"

text \<open>
  A whole \<^verbatim>\<open>Receive\<close> call across its waits. While the call is parked the mutex is
  free and other goroutines change the queue; \<open>envs\<close> lists, for each wake-up of
  this call, what the others did to the queue since it parked. The call consumes
  one entry per wake-up and stays parked when the list is used up.
\<close>

fun Receive_resume ::
  "'a element_type \<Rightarrow> ('a Channel \<Rightarrow> 'a Channel) list \<Rightarrow> 'a Channel
     \<Rightarrow> 'a Channel \<times> 'a recv_status \<times> event list"
where
  "Receive_resume G [] ch = (ch, RecvParked, [])"
| "Receive_resume G (env # envs) ch =
     (case Receive_wake G (env ch) of
        (ch', RecvParked, evs) \<Rightarrow>
          (case Receive_resume G envs ch' of (ch'', st, evs') \<Rightarrow> (ch'', st, evs @ evs'))
      | (ch', st, evs) \<Rightarrow> (ch', st, evs))"

definition Receive_run ::
  "'a element_type \<Rightarrow> 'a Channel \<Rightarrow> ('a Channel \<Rightarrow> 'a Channel) list
     \<Rightarrow> 'a Channel \<times> 'a recv_status \<times> event list"
where
  "Receive_run G ch envs =
     (case Receive G ch of
        (ch', RecvParked, evs) \<Rightarrow>
          (case Receive_resume G envs ch' of (ch'', st, evs') \<Rightarrow> (ch'', st, evs @ evs'))
      | (ch', st, evs) \<Rightarrow> (ch', st, evs))"

text \<open>The same for a \<^verbatim>\<open>Send\<close> call.\<close>

fun Send_resume ::
  "('a Channel \<Rightarrow> 'a Channel) list \<Rightarrow> 'a Channel \<Rightarrow> 'a \<Rightarrow> 'a Channel \<times> send_status \<times> event list"
where
  "Send_resume [] ch message = (ch, SendParked, [])"
| "Send_resume (env # envs) ch message =
     (case Send_wake (env ch) message of
        (ch', SendParked, evs) \<Rightarrow>
          (case Send_resume envs ch' message of (ch'', st, evs') \<Rightarrow> (ch'', st, evs @ evs'))
      | (ch', SendReturned e, evs) \<Rightarrow> (ch', SendReturned e, evs))"

definition Send_run ::
  "'a Channel \<Rightarrow> 'a \<Rightarrow> ('a Channel \<Rightarrow> 'a Channel) list \<Rightarrow> 'a Channel \<times> send_status \<times> event list"
where
  "Send_run ch message envs =
     (case Send ch message of
        (ch', SendParked, evs) \<Rightarrow>
          (case Send_resume envs ch' message of (ch'', st, evs') \<Rightarrow> (ch'', st, evs @ evs'))
      | (ch', SendReturned e, evs) \<Rightarrow> (ch', SendReturned e, evs))"

text \<open>
  The queue found by a parked call at its \<open>k\<close>-th wake-up: parked segments leave the
  queue as it is, so it is what the first \<open>k\<close> rounds of the other goroutines made
  of the queue the call parked on.
\<close>

definition found_at_wake ::
  "('a Channel \<Rightarrow> 'a Channel) list \<Rightarrow> 'a Channel \<Rightarrow> nat \<Rightarrow> 'a Channel"
where
  "found_at_wake envs ch k = fold (\<lambda>env c. env c) (take k envs) ch"

text \<open>
  The segments any goroutine can run on a queue, for statements about every later
  call: entering or resuming a \<^verbatim>\<open>Send\<close>, entering or resuming a \<^verbatim>\<open>Receive\<close>, and
  \<^verbatim>\<open>Close\<close>.
\<close>

datatype 'a action = DoSend 'a | DoSendWake 'a | DoReceive | DoReceiveWake | DoClose

fun act :: "'a element_type \<Rightarrow> 'a action \<Rightarrow> 'a Channel \<Rightarrow> 'a Channel" where
  "act G (DoSend v) ch = fst (Send ch v)"
| "act G (DoSendWake v) ch = fst (Send_wake ch v)"
| "act G DoReceive ch = fst (Receive G ch)"
| "act G DoReceiveWake ch = fst (Receive_wake G ch)"
| "act G DoClose ch = fst (Close ch)"

text \<open>Consecutive \<^verbatim>\<open>Send\<close> calls by one goroutine; it stops at the first that parks.\<close>

fun Send_many :: "'a Channel \<Rightarrow> 'a list \<Rightarrow> 'a Channel \<times> send_status" where
  "Send_many ch [] = (ch, SendReturned None)"
| "Send_many ch (v # vs) =
     (case Send ch v of
        (ch', SendReturned None, evs) \<Rightarrow> Send_many ch' vs
      | (ch', st, evs) \<Rightarrow> (ch', st))"

section \<open>Custom mutex (state monitor)\<close>

text \<open>
  \<^verbatim>\<open>Mutex[T]\<close> of \<^verbatim>\<open>custom_mutex/mutex.go\<close> holds \<^verbatim>\<open>data\<close> and three unbuffered
  channels \<^verbatim>\<open>read\<close>, \<^verbatim>\<open>write\<close>, \<^verbatim>\<open>stop\<close>. Unbuffered channels store nothing: an operation
  on one completes only in a rendezvous with the goroutine that \<^verbatim>\<open>NewMutex\<close> starts.
  The state is therefore \<^verbatim>\<open>data\<close> and whether that goroutine is still inside its
  \<^verbatim>\<open>for { select { ... } }\<close> loop.
\<close>

record 'a Mutex =
  data :: 'a
  serving :: bool

definition NewMutex :: "'a \<Rightarrow> 'a Mutex" where
  "NewMutex zero = \<lparr>data = zero, serving = True\<rparr>"

definition NewMutexWithValue :: "'a \<Rightarrow> 'a \<Rightarrow> 'a Mutex" where
  "NewMutexWithValue zero v = (NewMutex zero)\<lparr>data := v\<rparr>"

text \<open>The three cases of the \<^verbatim>\<open>select\<close>, named by the channel that becomes ready.\<close>

datatype 'a request = OnRead | OnWrite 'a | OnStop

text \<open>
  One iteration of the goroutine's loop for a request offered on one of the channels.
  \<open>None\<close>: the goroutine has returned, nobody receives from the channel, and the
  offering goroutine stays blocked. Otherwise the new state and, for \<^verbatim>\<open>read\<close>, the value
  sent on the response channel.
\<close>

definition select_case :: "'a Mutex \<Rightarrow> 'a request \<Rightarrow> ('a Mutex \<times> 'a option) option" where
  "select_case m r =
     (if \<not> serving m then None
      else (case r of
              OnRead \<Rightarrow> Some (m, Some (data m))
            | OnWrite v \<Rightarrow> Some (m\<lparr>data := v\<rparr>, None)
            | OnStop \<Rightarrow> Some (m\<lparr>serving := False\<rparr>, None)))"

text \<open>
  \<^verbatim>\<open>Get\<close> of \<^verbatim>\<open>custom_mutex/get.go\<close>: offer a fresh response channel on \<^verbatim>\<open>m.read\<close>, then
  receive from it. \<open>None\<close>: the call never returns.
\<close>

definition Mutex_Get :: "'a Mutex \<Rightarrow> ('a Mutex \<times> 'a) option" where
  "Mutex_Get m =
     (case select_case m OnRead of
        Some (m', Some v) \<Rightarrow> Some (m', v)
      | _ \<Rightarrow> None)"

text \<open>
  Modelled from the spec: the method \<^verbatim>\<open>Send\<close> of \<^verbatim>\<open>Mutex\<close> is missing from the sources
  (only its callers are there). The specification: it "enqueues a write request; blocks
  until the coordinator accepts it". \<open>None\<close>: the call never returns.
\<close>

definition Mutex_Send :: "'a Mutex \<Rightarrow> 'a \<Rightarrow> 'a Mutex option" where
  "Mutex_Send m v = map_option fst (select_case m (OnWrite v))"

text \<open>
  Modelled from the spec: the method \<^verbatim>\<open>Close\<close> of \<^verbatim>\<open>Mutex\<close> is missing from the sources
  (only its callers are there). The specification: it "signals the coordinator to
  terminate its service loop. After this, the coordinator performs no further
  reads/writes".
\<close>

definition Mutex_Close :: "'a Mutex \<Rightarrow> 'a Mutex option" where
  "Mutex_Close m = map_option fst (select_case m OnStop)"

text \<open>
  Calls in the order in which their requests are offered to the goroutine, each with
  what becomes of it. A call that never completes leaves the state as it is.
\<close>

datatype 'a call = CallGet | CallSend 'a | CallClose

datatype 'a outcome = GetReturned 'a | SendAccepted | CloseAccepted | NeverCompletes

fun perform :: "'a Mutex \<Rightarrow> 'a call \<Rightarrow> 'a Mutex \<times> 'a outcome" where
  "perform m CallGet =
     (case Mutex_Get m of None \<Rightarrow> (m, NeverCompletes) | Some (m', v) \<Rightarrow> (m', GetReturned v))"
| "perform m (CallSend v) =
     (case Mutex_Send m v of None \<Rightarrow> (m, NeverCompletes) | Some m' \<Rightarrow> (m', SendAccepted))"
| "perform m CallClose =
     (case Mutex_Close m of None \<Rightarrow> (m, NeverCompletes) | Some m' \<Rightarrow> (m', CloseAccepted))"

fun perform_all :: "'a Mutex \<Rightarrow> 'a call list \<Rightarrow> 'a Mutex \<times> 'a outcome list" where
  "perform_all m [] = (m, [])"
| "perform_all m (c # cs) =
     (case perform m c of (m', r) \<Rightarrow>
        (case perform_all m' cs of (m'', rs) \<Rightarrow> (m'', r # rs)))"

section \<open>Publisher (topic broker)\<close>

text \<open>
  A subscriber's mailbox is a Go channel made by \<^verbatim>\<open>make(chan string, 1)\<close>. A channel
  value is a reference, compared by identity in \<^verbatim>\<open>CloseSubscriber\<close>, so channels live
  in a store: a reference is a number, the store maps it to the channel's buffer, its
  capacity and whether it has been closed.

  The field \<open>history\<close> is not part of a Go channel. It records every message whose
  send on the channel has completed, so that a statement can say what was sent to a
  mailbox after its subscriber has taken the message out of the buffer. No operation
  reads it.
\<close>

type_synonym chan = nat

record mailbox =
  buffer :: "string list"
  cap :: nat
  closed :: bool
  history :: "string list"

type_synonym chan_store = "chan \<rightharpoonup> mailbox"

text \<open>
  The built-in channel operations of Go on such a store. A reference the store does
  not know behaves as the nil channel. \<^verbatim>\<open>ch <- message\<close>: panics on a closed channel,
  completes while the buffer has room and blocks otherwise.
\<close>

datatype send_outcome = Sent chan_store | SendBlocks | SendPanics string

definition chan_send :: "chan_store \<Rightarrow> chan \<Rightarrow> string \<Rightarrow> send_outcome" where
  "chan_send h c message =
     (case h c of
        None \<Rightarrow> SendBlocks
      | Some mb \<Rightarrow>
          if closed mb then SendPanics ''send on closed channel''
          else if length (buffer mb) < cap mb
            then Sent (h(c \<mapsto> mb\<lparr>buffer := buffer mb @ [message],
                                  history := history mb @ [message]\<rparr>))
          else SendBlocks)"

text \<open>
  \<^verbatim>\<open>msg, ok := <-ch\<close>: a buffered message is delivered first, closed or not; an empty
  closed channel yields the zero value and \<^verbatim>\<open>false\<close> (end of stream); an empty open
  channel blocks.
\<close>

datatype recv_outcome = Received chan_store string bool | RecvBlocks

definition chan_recv :: "chan_store \<Rightarrow> chan \<Rightarrow> recv_outcome" where
  "chan_recv h c =
     (case h c of
        None \<Rightarrow> RecvBlocks
      | Some mb \<Rightarrow>
          (case buffer mb of
             m # rest \<Rightarrow> Received (h(c \<mapsto> mb\<lparr>buffer := rest\<rparr>)) m True
           | [] \<Rightarrow> if closed mb then Received h [] False else RecvBlocks))"

text \<open>\<^verbatim>\<open>close(ch)\<close>: panics on the nil channel and on a closed channel.\<close>

definition chan_close :: "chan_store \<Rightarrow> chan \<Rightarrow> string + chan_store" where
  "chan_close h c =
     (case h c of
        None \<Rightarrow> Inl ''close of nil channel''
      | Some mb \<Rightarrow>
          if closed mb then Inl ''close of closed channel''
          else Inr (h(c \<mapsto> mb\<lparr>closed := True\<rparr>)))"

text \<open>
  The struct \<^verbatim>\<open>Publisher\<close> (source file \<^verbatim>\<open>unnamed/part_001\<close>): the map \<^verbatim>\<open>subscribers\<close> from a topic to its slice of
  channels. The embedded \<^verbatim>\<open>sync.RWMutex\<close> makes \<^verbatim>\<open>CreateTopic\<close>, \<^verbatim>\<open>Subscribe\<close>,
  \<^verbatim>\<open>CloseTopic\<close> and \<^verbatim>\<open>CloseSubscriber\<close> atomic. The model keeps the channel store and
  the next unused reference beside the map.
\<close>

record Publisher =
  subscribers :: "string \<rightharpoonup> chan list"
  chans :: chan_store
  next_chan :: chan

datatype 'a go_result = Returns 'a | Panics string

definition NewPublisher :: Publisher where
  "NewPublisher = \<lparr>subscribers = Map.empty, chans = Map.empty, next_chan = 0\<rparr>"

definition make_chan :: "Publisher \<Rightarrow> nat \<Rightarrow> Publisher \<times> chan" where
  "make_chan p n =
     (p\<lparr>chans := (chans p)(next_chan p \<mapsto>
                   \<lparr>buffer = [], cap = n, closed = False, history = []\<rparr>),
        next_chan := Suc (next_chan p)\<rparr>,
      next_chan p)"

definition CreateTopic :: "string \<Rightarrow> Publisher \<Rightarrow> Publisher" where
  "CreateTopic topic p = p\<lparr>subscribers := (subscribers p)(topic \<mapsto> [])\<rparr>"

text \<open>\<^verbatim>\<open>Subscribe\<close> makes the channel before it looks the topic up, as the source does.\<close>

definition Subscribe :: "string \<Rightarrow> Publisher \<Rightarrow> Publisher \<times> chan option \<times> error option" where
  "Subscribe topic p =
     (case make_chan p 1 of
        (p1, channel) \<Rightarrow>
          (case subscribers p1 topic of
             None \<Rightarrow> (p1, None, Some ''topic not found'')
           | Some subs \<Rightarrow>
               (p1\<lparr>subscribers := (subscribers p1)(topic \<mapsto> subs @ [channel])\<rparr>,
                Some channel, None)))"

text \<open>
  \<^verbatim>\<open>Publish\<close> (\<^verbatim>\<open>pubsub/publish.go\<close>) looks the topic up and then runs the loop
  \<^verbatim>\<open>for _, ch := range subscriber { ch <- message }\<close> over the slice it found. A send
  that cannot proceed blocks the call until the mailbox has room. The third component
  of a result lists the channels whose send has completed, in the order of completion;
  a blocked call keeps the channels still to be served.

  \<open>Publish_loop\<close> is the loop run with no other goroutine acting: it stops at the first
  send that blocks, and when nobody else acts that send blocks for ever.
\<close>

datatype publish_status =
  PublishReturned "error option" | PublishBlocked "chan list" | PublishPanicked string

fun Publish_loop ::
  "Publisher \<Rightarrow> chan list \<Rightarrow> string \<Rightarrow> Publisher \<times> publish_status \<times> chan list"
where
  "Publish_loop p [] message = (p, PublishReturned None, [])"
| "Publish_loop p (ch # rest) message =
     (case chan_send (chans p) ch message of
        Sent h \<Rightarrow>
          (case Publish_loop (p\<lparr>chans := h\<rparr>) rest message of
             (p', st, sent) \<Rightarrow> (p', st, ch # sent))
      | SendBlocks \<Rightarrow> (p, PublishBlocked (ch # rest), [])
      | SendPanics e \<Rightarrow> (p, PublishPanicked e, []))"

definition Publish ::
  "string \<Rightarrow> string \<Rightarrow> Publisher \<Rightarrow> Publisher \<times> publish_status \<times> chan list"
where
  "Publish topic message p =
     (case subscribers p topic of
        None \<Rightarrow> (p, PublishReturned (Some ''topic not found''), [])
      | Some subscriber \<Rightarrow> Publish_loop p subscriber message)"



text \<open>
  \<^verbatim>\<open>CloseTopic\<close>: the loop closes the channels one by one; a panic leaves the channels
  closed so far closed and the map as it was.
\<close>

fun close_all :: "chan_store \<Rightarrow> chan list \<Rightarrow> chan_store \<times> string option" where
  "close_all h [] = (h, None)"
| "close_all h (ch # rest) =
     (case chan_close h ch of
        Inl e \<Rightarrow> (h, Some e)
      | Inr h' \<Rightarrow> close_all h' rest)"

definition CloseTopic :: "string \<Rightarrow> Publisher \<Rightarrow> Publisher \<times> error option go_result" where
  "CloseTopic topic p =
     (case subscribers p topic of
        None \<Rightarrow> (p, Returns (Some ''topic not found''))
      | Some subs \<Rightarrow>
          (case close_all (chans p) subs of
             (h, Some e) \<Rightarrow> (p\<lparr>chans := h\<rparr>, Panics e)
           | (h, None) \<Rightarrow>
               (p\<lparr>chans := h, subscribers := (subscribers p)(topic := None)\<rparr>, Returns None)))"

text \<open>
  \<^verbatim>\<open>CloseSubscriber\<close>: the loop stops at the first index whose channel is the given
  one, closes it and replaces the slice by \<^verbatim>\<open>append(s[:i], s[i+1:]...)\<close>.
\<close>

fun index_of :: "chan list \<Rightarrow> chan \<Rightarrow> nat option" where
  "index_of [] c = None"
| "index_of (subscriber # rest) c =
     (if subscriber = c then Some 0 else map_option Suc (index_of rest c))"

definition CloseSubscriber ::
  "string \<Rightarrow> chan \<Rightarrow> Publisher \<Rightarrow> Publisher \<times> error option go_result"
where
  "CloseSubscriber topic subscriberChannel p =
     (case subscribers p topic of
        None \<Rightarrow> (p, Returns (Some ''topic not found''))
      | Some subs \<Rightarrow>
          (case index_of subs subscriberChannel of
             None \<Rightarrow> (p, Returns (Some ''subscriber not found''))
           | Some i \<Rightarrow>
               (case chan_close (chans p) (subs ! i) of
                  Inl e \<Rightarrow> (p, Panics e)
                | Inr h \<Rightarrow>
                    (p\<lparr>chans := h,
                       subscribers := (subscribers p)(topic \<mapsto> take i subs @ drop (Suc i) subs)\<rparr>,
                     Returns None))))"

text \<open>A subscriber's \<^verbatim>\<open><-ch\<close> as a step on the broker's state.\<close>

definition subscriber_receive :: "chan \<Rightarrow> Publisher \<Rightarrow> Publisher" where
  "subscriber_receive c p =
     (case chan_recv (chans p) c of
        Received h m ok \<Rightarrow> p\<lparr>chans := h\<rparr>
      | RecvBlocks \<Rightarrow> p)"

text \<open>
  The five operations as steps on the state, for statements about every operation
  and about every later call. The step is the state the call leaves: when it
  returns, when it panics, or when a \<^verbatim>\<open>Publish\<close> blocks.
\<close>

datatype operation =
  OpCreateTopic string | OpSubscribe string | OpPublish string string
  | OpCloseTopic string | OpCloseSubscriber string chan

fun perform_op :: "operation \<Rightarrow> Publisher \<Rightarrow> Publisher" where
  "perform_op (OpCreateTopic topic) p = CreateTopic topic p"
| "perform_op (OpSubscribe topic) p = fst (Subscribe topic p)"
| "perform_op (OpPublish topic message) p = fst (Publish topic message p)"
| "perform_op (OpCloseTopic topic) p = fst (CloseTopic topic p)"
| "perform_op (OpCloseSubscriber topic c) p = fst (CloseSubscriber topic c p)"

definition listed :: "Publisher \<Rightarrow> string \<Rightarrow> chan set" where
  "listed p topic = (case subscribers p topic of None \<Rightarrow> {} | Some subs \<Rightarrow> set subs)"

definition is_closed :: "Publisher \<Rightarrow> chan \<Rightarrow> bool" where
  "is_closed p c = (case chans p c of None \<Rightarrow> False | Some mb \<Rightarrow> closed mb)"

text \<open>The operation removes channel \<open>c\<close> from the subscriber list of \<open>topic\<close>.\<close>

definition removes :: "operation \<Rightarrow> Publisher \<Rightarrow> string \<Rightarrow> chan \<Rightarrow> bool" where
  "removes oper p topic c \<longleftrightarrow> c \<in> listed p topic \<and> c \<notin> listed (perform_op oper p) topic"

text \<open>
  The states a broker can be in: those reached from \<^verbatim>\<open>NewPublisher()\<close> by the five
  operations, by subscribers receiving from channels, and by the sends of publishers
  that had been blocked.
\<close>

inductive reachable :: "Publisher \<Rightarrow> bool" where
  init: "reachable NewPublisher"
| oper: "reachable p \<Longrightarrow> reachable (perform_op oper p)"
| recv: "reachable p \<Longrightarrow> reachable (subscriber_receive c p)"
| resume: "reachable p \<Longrightarrow> reachable (fst (Publish_loop p todo message))"

text \<open>
  What holds of every state a broker can be in (proved below): the channels listed for
  a topic are distinct, known to the store and open; no channel is listed for two
  topics; and the references not yet handed out are unknown to the store.
\<close>

definition well_formed :: "Publisher \<Rightarrow> bool" where
  "well_formed p \<longleftrightarrow>
     (\<forall>topic subs. subscribers p topic = Some subs \<longrightarrow>
        distinct subs \<and> (\<forall>c\<in>set subs. \<exists>mb. chans p c = Some mb \<and> \<not> closed mb))
     \<and> (\<forall>t1 t2 s1 s2. subscribers p t1 = Some s1 \<and> subscribers p t2 = Some s2 \<and> t1 \<noteq> t2
           \<longrightarrow> set s1 \<inter> set s2 = {})
     \<and> (\<forall>c. next_chan p \<le> c \<longrightarrow> chans p c = None)"

text \<open>
  Two states of the same shape: the same map, the same references handed out, and for
  every channel the same capacity and the same closed flag. Sends and receives change
  buffers only.
\<close>

definition same_shape :: "Publisher \<Rightarrow> Publisher \<Rightarrow> bool" where
  "same_shape p q \<longleftrightarrow>
     subscribers q = subscribers p \<and> next_chan q = next_chan p
     \<and> (\<forall>c. map_option closed (chans q c) = map_option closed (chans p c))
     \<and> (\<forall>c. map_option cap (chans q c) = map_option cap (chans p c))"

text \<open>The store after \<^verbatim>\<open>close(ch)\<close> for each channel of a set.\<close>

definition close_in :: "chan_store \<Rightarrow> chan set \<Rightarrow> chan_store" where
  "close_in h cs = (\<lambda>c. if c \<in> cs then map_option (\<lambda>mb. mb\<lparr>closed := True\<rparr>) (h c) else h c)"

text \<open>
  Every channel of a list is known and open; and the store after a completed
  \<^verbatim>\<open>ch <- message\<close> on each channel of a set.
\<close>

definition all_open :: "Publisher \<Rightarrow> chan list \<Rightarrow> bool" where
  "all_open p cs \<longleftrightarrow> (\<forall>c\<in>set cs. \<exists>mb. chans p c = Some mb \<and> \<not> closed mb)"


text \<open>The messages sent so far on a channel.\<close>

definition history_of :: "Publisher \<Rightarrow> chan \<Rightarrow> string list" where
  "history_of p c = (case chans p c of None \<Rightarrow> [] | Some mb \<Rightarrow> history mb)"

text \<open>
  What another goroutine can do while a \<^verbatim>\<open>Publish\<close> holds the read lock: send and
  receive. It leaves the shape of the state as it is and can only add to what was sent
  on a channel. It sends nothing when it leaves that as it is, as receiving does.
\<close>

definition bystander :: "(Publisher \<Rightarrow> Publisher) \<Rightarrow> bool" where
  "bystander env \<longleftrightarrow>
     (\<forall>q. same_shape q (env q)
          \<and> (\<forall>c. \<exists>more. history_of (env q) c = history_of q c @ more))"

definition sends_nothing :: "(Publisher \<Rightarrow> Publisher) \<Rightarrow> bool" where
  "sends_nothing env \<longleftrightarrow> (\<forall>q c. history_of (env q) c = history_of q c)"


text \<open>Each subscriber of a list receives once from its mailbox.\<close>

definition receive_all :: "chan list \<Rightarrow> Publisher \<Rightarrow> Publisher" where
  "receive_all cs p = fold subscriber_receive cs p"


section \<open>Properties of the custom channel\<close>

lemma found_at_wake_0 [simp]: "found_at_wake envs ch 0 = ch"
  by (simp add: found_at_wake_def)

lemma found_at_wake_Suc [simp]: "found_at_wake (env # envs) ch (Suc k) = found_at_wake envs (env ch) k"
  by (simp add: found_at_wake_def)

lemma Receive_loop_parked:
  "Receive_loop G c = (c', RecvParked, evs) \<longleftrightarrow> store c = [] \<and> c' = c \<and> evs = [Wait]"
  by (auto simp: Receive_loop_def split: list.splits)

lemma Receive_loop_returned:
  "Receive_loop G c = (c', RecvReturned m ok, evs) \<longleftrightarrow>
     (\<exists>rest. store c = m # rest \<and> c' = c\<lparr>capacity := capacity c - 1, store := rest\<rparr>)
       \<and> \<not> (is_interface G \<and> m = zero_value G) \<and> ok
       \<and> evs = [CapacityDec, RemoveFront, Broadcast]"
  by (auto simp: Receive_loop_def split: list.splits)

lemma Receive_loop_panicked:
  "Receive_loop G c = (c', RecvPanicked e, evs) \<longleftrightarrow>
     (\<exists>rest. store c = zero_value G # rest \<and> c' = c\<lparr>capacity := capacity c - 1, store := rest\<rparr>)
       \<and> is_interface G \<and> e = ''interface conversion: interface is nil''
       \<and> evs = [CapacityDec, RemoveFront]"
  by (auto simp: Receive_loop_def split: list.splits)

lemma Receive_resume_ended:
  "Receive_resume G envs c = (c', st, evs) \<Longrightarrow> st \<noteq> RecvParked \<Longrightarrow>
     \<exists>n ev. n < length envs
        \<and> (\<forall>k. 1 \<le> k \<and> k \<le> n \<longrightarrow> store (found_at_wake envs c k) = [])
        \<and> Receive_loop G (found_at_wake envs c (Suc n)) = (c', st, ev)
        \<and> evs = replicate n Wait @ ev"
proof (induction envs arbitrary: c c' evs)
  case Nil
  then show ?case by simp
next
  case (Cons env envs)
  obtain d st1 ev where L: "Receive_loop G (env c) = (d, st1, ev)"
    by (cases "Receive_loop G (env c)") auto
  show ?case
  proof (cases "st1 = RecvParked")
    case False
    with L Cons.prems have "d = c'" "st1 = st" "ev = evs"
      by (cases st1; simp add: Receive_wake_def)+
    with L show ?thesis
      by (intro exI[of _ 0] exI[of _ evs]) auto
  next
    case True
    with L have P: "store (env c) = []" "d = env c" "ev = [Wait]"
      by (auto simp: Receive_loop_parked)
    obtain c2 st2 ev2 where R: "Receive_resume G envs (env c) = (c2, st2, ev2)"
      by (cases "Receive_resume G envs (env c)") auto
    with L True P Cons.prems have eq: "c2 = c'" "st2 = st" "evs = Wait # ev2"
      by (auto simp: Receive_wake_def)
    from Cons.IH [OF R[unfolded eq(1,2)] Cons.prems(2)] obtain n ev3 where
      n: "n < length envs" "\<forall>k. 1 \<le> k \<and> k \<le> n \<longrightarrow> store (found_at_wake envs (env c) k) = []"
         "Receive_loop G (found_at_wake envs (env c) (Suc n)) = (c', st, ev3)"
         "ev2 = replicate n Wait @ ev3"
      by blast
    have empt: "\<forall>k. 1 \<le> k \<and> k \<le> Suc n \<longrightarrow> store (found_at_wake (env # envs) c k) = []"
    proof (intro allI impI)
      fix k assume k: "1 \<le> k \<and> k \<le> Suc n"
      then obtain j where j: "k = Suc j" by (cases k) auto
      show "store (found_at_wake (env # envs) c k) = []"
      proof (cases j)
        case 0
        with j P show ?thesis by simp
      next
        case (Suc i)
        with j k n(2) show ?thesis by simp
      qed
    qed
    show ?thesis
      apply (intro exI[of _ "Suc n"] exI[of _ ev3])
      using n empt eq by simp
  qed
qed

lemma Receive_resume_parked:
  "Receive_resume G envs c = (c', RecvParked, evs) \<Longrightarrow>
     (\<forall>k. 1 \<le> k \<and> k \<le> length envs \<longrightarrow> store (found_at_wake envs c k) = [])
        \<and> c' = found_at_wake envs c (length envs) \<and> evs = replicate (length envs) Wait"
proof (induction envs arbitrary: c c' evs)
  case Nil
  then show ?case by simp
next
  case (Cons env envs)
  obtain d st1 ev where L: "Receive_loop G (env c) = (d, st1, ev)"
    by (cases "Receive_loop G (env c)") auto
  show ?case
  proof (cases "st1 = RecvParked")
    case False
    with L Cons.prems show ?thesis by (cases st1; simp add: Receive_wake_def)
  next
    case True
    with L have P: "store (env c) = []" "d = env c" "ev = [Wait]"
      by (auto simp: Receive_loop_parked)
    obtain c2 st2 ev2 where R: "Receive_resume G envs (env c) = (c2, st2, ev2)"
      by (cases "Receive_resume G envs (env c)") auto
    with L True P Cons.prems have eq: "c2 = c'" "st2 = RecvParked" "evs = Wait # ev2"
      by (auto simp: Receive_wake_def)
    from Cons.IH[OF R[unfolded eq]] have
      n: "\<forall>k. 1 \<le> k \<and> k \<le> length envs \<longrightarrow> store (found_at_wake envs (env c) k) = []"
         "c' = found_at_wake envs (env c) (length envs)" "ev2 = replicate (length envs) Wait"
      by blast+
    have empt: "\<forall>k. 1 \<le> k \<and> k \<le> length (env # envs) \<longrightarrow> store (found_at_wake (env # envs) c k) = []"
    proof (intro allI impI)
      fix k assume k: "1 \<le> k \<and> k \<le> length (env # envs)"
      then obtain j where j: "k = Suc j" by (cases k) auto
      show "store (found_at_wake (env # envs) c k) = []"
      proof (cases j)
        case 0
        with j P show ?thesis by simp
      next
        case (Suc i)
        with j k n(1) show ?thesis by simp
      qed
    qed
    show ?thesis using n empt eq by simp
  qed
qed

text \<open>The end of a call that does not stay parked: the wake-up at which it found an item.\<close>

lemma Receive_run_ended:
  assumes "\<not> close ch" and "Receive_run G ch envs = (ch', st, evs)" and "st \<noteq> RecvParked"
  shows "\<exists>n ev. n \<le> length envs
        \<and> (\<forall>k<n. store (found_at_wake envs (ch\<lparr>capacity := capacity ch + 1\<rparr>) k) = [])
        \<and> Receive_loop G (found_at_wake envs (ch\<lparr>capacity := capacity ch + 1\<rparr>) n) = (ch', st, ev)
        \<and> evs = [CapacityInc, Broadcast] @ replicate n Wait @ ev"
proof -
  let ?c1 = "ch\<lparr>capacity := capacity ch + 1\<rparr>"
  obtain d st1 ev where L: "Receive_loop G ?c1 = (d, st1, ev)"
    by (cases "Receive_loop G ?c1") auto
  show ?thesis
  proof (cases "st1 = RecvParked")
    case False
    with L assms have "d = ch'" "st1 = st" "evs = [CapacityInc, Broadcast] @ ev"
      by (cases st1; simp add: Receive_run_def Receive_def)+
    with L show ?thesis
      by (intro exI[of _ 0] exI[of _ ev]) auto
  next
    case True
    with L have P: "store ?c1 = []" "d = ?c1" "ev = [Wait]"
      by (auto simp: Receive_loop_parked)
    obtain c2 st2 ev2 where R: "Receive_resume G envs ?c1 = (c2, st2, ev2)"
      by (cases "Receive_resume G envs ?c1") auto
    have run: "Receive_run G ch envs = (c2, st2, [CapacityInc, Broadcast, Wait] @ ev2)"
      using assms(1) L True P R by (simp add: Receive_run_def Receive_def)
    with assms have eq: "c2 = ch'" "st2 = st" "evs = [CapacityInc, Broadcast, Wait] @ ev2" by simp_all
    from Receive_resume_ended [OF R[unfolded eq(1,2)] assms(3)] obtain n ev3 where
      n: "n < length envs" "\<forall>k. 1 \<le> k \<and> k \<le> n \<longrightarrow> store (found_at_wake envs ?c1 k) = []"
         "Receive_loop G (found_at_wake envs ?c1 (Suc n)) = (ch', st, ev3)"
         "ev2 = replicate n Wait @ ev3"
      by blast
    have empt: "\<forall>k<Suc n. store (found_at_wake envs ?c1 k) = []"
    proof (intro allI impI)
      fix k assume "k < Suc n"
      show "store (found_at_wake envs ?c1 k) = []"
      proof (cases k)
        case 0
        with P show ?thesis by simp
      next
        case (Suc j)
        with \<open>k < Suc n\<close> n(2) show ?thesis by simp
      qed
    qed
    show ?thesis
      apply (intro exI[of _ "Suc n"] exI[of _ ev3])
      using n empt eq by simp
  qed
qed

lemma Receive_run_parked:
  assumes "\<not> close ch" and "Receive_run G ch envs = (ch', RecvParked, evs)"
  shows "(\<forall>k\<le>length envs. store (found_at_wake envs (ch\<lparr>capacity := capacity ch + 1\<rparr>) k) = [])
        \<and> ch' = found_at_wake envs (ch\<lparr>capacity := capacity ch + 1\<rparr>) (length envs)
        \<and> evs = [CapacityInc, Broadcast] @ replicate (Suc (length envs)) Wait"
proof -
  let ?c1 = "ch\<lparr>capacity := capacity ch + 1\<rparr>"
  obtain d st1 ev where L: "Receive_loop G ?c1 = (d, st1, ev)"
    by (cases "Receive_loop G ?c1") auto
  have st1: "st1 = RecvParked"
  proof (rule ccontr)
    assume "st1 \<noteq> RecvParked"
    with L assms show False by (cases st1; simp add: Receive_run_def Receive_def)
  qed
  with L have P: "store ?c1 = []" "d = ?c1" "ev = [Wait]"
    by (auto simp: Receive_loop_parked)
  obtain c2 st2 ev2 where R: "Receive_resume G envs ?c1 = (c2, st2, ev2)"
    by (cases "Receive_resume G envs ?c1") auto
  have run: "Receive_run G ch envs = (c2, st2, [CapacityInc, Broadcast, Wait] @ ev2)"
    using assms(1) L st1 P R by (simp add: Receive_run_def Receive_def)
  with assms have eq: "c2 = ch'" "st2 = RecvParked" "evs = [CapacityInc, Broadcast, Wait] @ ev2"
    by simp_all
  from Receive_resume_parked [OF R[unfolded eq(1,2)]] have
    n: "\<forall>k. 1 \<le> k \<and> k \<le> length envs \<longrightarrow> store (found_at_wake envs ?c1 k) = []"
       "ch' = found_at_wake envs ?c1 (length envs)" "ev2 = replicate (length envs) Wait"
    by blast+
  have empt: "\<forall>k\<le>length envs. store (found_at_wake envs ?c1 k) = []"
  proof (intro allI impI)
    fix k assume "k \<le> length envs"
    show "store (found_at_wake envs ?c1 k) = []"
    proof (cases k)
      case 0
      with P show ?thesis by simp
    next
      case (Suc j)
      with \<open>k \<le> length envs\<close> n(1) show ?thesis by simp
    qed
  qed
  show ?thesis using n empt eq by simp
qed

text \<open>
  Claim C3, amended. On a queue that is not closed, \<^verbatim>\<open>Receive\<close> performs, in this
  order: \<^verbatim>\<open>capacity++\<close>, a broadcast, one \<^verbatim>\<open>Wait\<close> for each time it finds the queue empty
  (at entry and at each wake-up), then \<^verbatim>\<open>capacity--\<close> and the removal of the front item;
  and when that item is not the nil value of an interface element type, a second
  broadcast and the return of that item with \<open>ok = True\<close>. It waits exactly as long as
  it finds the queue empty and stays parked only then. Its own change to \<^verbatim>\<open>capacity\<close> is
  zero: the capacity it leaves differs from the one it entered with by what the other
  goroutines did to \<^verbatim>\<open>capacity\<close> while it was parked, and by nothing when it did not have
  to wait. The call ends in a panic only for an interface element type, at a front item
  that is its nil value, after the decrement and the removal and without a broadcast.
\<close>

theorem Receive_protocol:
  assumes "\<not> close ch"
  shows "case Receive_run G ch envs of
           (ch', RecvReturned m ok, evs) \<Rightarrow>
             (\<exists>n rest. n \<le> length envs
                \<and> (\<forall>k<n. store (found_at_wake envs (ch\<lparr>capacity := capacity ch + 1\<rparr>) k) = [])
                \<and> store (found_at_wake envs (ch\<lparr>capacity := capacity ch + 1\<rparr>) n) = m # rest
                \<and> \<not> (is_interface G \<and> m = zero_value G)
                \<and> ch' = (found_at_wake envs (ch\<lparr>capacity := capacity ch + 1\<rparr>) n)
                           \<lparr>capacity := capacity (found_at_wake envs (ch\<lparr>capacity := capacity ch + 1\<rparr>) n) - 1,
                            store := rest\<rparr>
                \<and> evs = [CapacityInc, Broadcast] @ replicate n Wait @ [CapacityDec, RemoveFront, Broadcast]
                \<and> capacity ch' - capacity ch =
                    capacity (found_at_wake envs (ch\<lparr>capacity := capacity ch + 1\<rparr>) n)
                      - capacity (found_at_wake envs (ch\<lparr>capacity := capacity ch + 1\<rparr>) 0))
             \<and> ok
         | (ch', RecvParked, evs) \<Rightarrow>
             (\<forall>k\<le>length envs. store (found_at_wake envs (ch\<lparr>capacity := capacity ch + 1\<rparr>) k) = [])
             \<and> ch' = found_at_wake envs (ch\<lparr>capacity := capacity ch + 1\<rparr>) (length envs)
             \<and> evs = [CapacityInc, Broadcast] @ replicate (Suc (length envs)) Wait
         | (ch', RecvPanicked e, evs) \<Rightarrow>
             is_interface G
             \<and> (\<exists>n rest. n \<le> length envs
                \<and> (\<forall>k<n. store (found_at_wake envs (ch\<lparr>capacity := capacity ch + 1\<rparr>) k) = [])
                \<and> store (found_at_wake envs (ch\<lparr>capacity := capacity ch + 1\<rparr>) n) = zero_value G # rest
                \<and> ch' = (found_at_wake envs (ch\<lparr>capacity := capacity ch + 1\<rparr>) n)
                           \<lparr>capacity := capacity (found_at_wake envs (ch\<lparr>capacity := capacity ch + 1\<rparr>) n) - 1,
                            store := rest\<rparr>
                \<and> evs = [CapacityInc, Broadcast] @ replicate n Wait @ [CapacityDec, RemoveFront])"
proof -
  let ?F = "found_at_wake envs (ch\<lparr>capacity := capacity ch + 1\<rparr>)"
  obtain ch' st evs where run: "Receive_run G ch envs = (ch', st, evs)"
    by (cases "Receive_run G ch envs") auto
  show ?thesis
  proof (cases st)
    case (RecvReturned m ok)
    from Receive_run_ended [OF assms run] RecvReturned obtain n ev where
      n: "n \<le> length envs" "\<forall>k<n. store (?F k) = []"
         "Receive_loop G (?F n) = (ch', RecvReturned m ok, ev)"
         "evs = [CapacityInc, Broadcast] @ replicate n Wait @ ev"
      by auto
    from n(3) obtain rest where r: "store (?F n) = m # rest"
        "ch' = (?F n)\<lparr>capacity := capacity (?F n) - 1, store := rest\<rparr>"
        "\<not> (is_interface G \<and> m = zero_value G)" "ok"
        "ev = [CapacityDec, RemoveFront, Broadcast]"
      by (auto simp: Receive_loop_returned)
    have "capacity ch' - capacity ch = capacity (?F n) - capacity (?F 0)"
      using r(2) by simp
    with n r show ?thesis
      unfolding run RecvReturned
      by (auto intro!: exI[of _ n] exI[of _ rest])
  next
    case RecvParked
    with Receive_run_parked [OF assms] run show ?thesis by simp
  next
    case (RecvPanicked e)
    from Receive_run_ended [OF assms run] RecvPanicked obtain n ev where
      n: "n \<le> length envs" "\<forall>k<n. store (?F k) = []"
         "Receive_loop G (?F n) = (ch', RecvPanicked e, ev)"
         "evs = [CapacityInc, Broadcast] @ replicate n Wait @ ev"
      by auto
    from n(3) obtain rest where r: "store (?F n) = zero_value G # rest"
        "ch' = (?F n)\<lparr>capacity := capacity (?F n) - 1, store := rest\<rparr>"
        "is_interface G" "ev = [CapacityDec, RemoveFront]"
      by (auto simp: Receive_loop_panicked)
    with n show ?thesis
      unfolding run RecvPanicked
      by (auto intro!: exI[of _ n] exI[of _ rest])
  qed
qed

theorem Receive_protocol_witness:
  "\<not> close (NewChannel 0 :: nat Channel) \<and>
   Receive_run \<lparr>zero_value = 0, is_interface = False\<rparr> (NewChannel 0 :: nat Channel)
       [\<lambda>c. c, \<lambda>c. fst (Send c 7)] =
     (NewChannel 0, RecvReturned 7 True,
      [CapacityInc, Broadcast, Wait, Wait, CapacityDec, RemoveFront, Broadcast])"
  using Receive_protocol [where ch = "NewChannel 0 :: nat Channel"
      and G = "\<lparr>zero_value = 0, is_interface = False\<rparr>"
      and envs = "[\<lambda>c. c, \<lambda>c. fst (Send c 7)]"]
  by (simp add: NewChannel_def Receive_run_def Receive_def Receive_loop_def Receive_wake_def
        Send_def Send_loop_def)

lemma Send_loop_no_error:
  "Send_loop ch v = (ch', SendReturned e, evs) \<Longrightarrow> e = None"
  by (auto simp: Send_loop_def split: if_splits)

lemma Send_resume_no_error:
  "Send_resume envs ch v = (ch', SendReturned e, evs) \<Longrightarrow> e = None"
proof (induction envs arbitrary: ch ch' evs)
  case Nil
  then show ?case by simp
next
  case (Cons env envs)
  obtain d st ev where L: "Send_loop (env ch) v = (d, st, ev)"
    by (cases "Send_loop (env ch) v") auto
  show ?case
  proof (cases st)
    case (SendReturned e')
    with L Cons.prems have "e' = e" by (simp add: Send_wake_def)
    with L SendReturned show ?thesis by (auto dest: Send_loop_no_error)
  next
    case SendParked
    obtain c2 st2 ev2 where R: "Send_resume envs d v = (c2, st2, ev2)"
      by (cases "Send_resume envs d v") auto
    with L SendParked Cons.prems have "st2 = SendReturned e"
      by (simp add: Send_wake_def)
    with R Cons.IH show ?thesis by blast
  qed
qed

text \<open>
  Claim C3 says that \<^verbatim>\<open>Receive\<close> returns the front item with \<open>ok = True\<close> and that
  afterwards the capacity equals its value on entry. The capacity does not when another
  \<^verbatim>\<open>Receive\<close> is parked at that moment: on \<^verbatim>\<open>NewChannel(0)\<close> a first \<^verbatim>\<open>Receive\<close> parks; a
  second one enters and parks, and a \<^verbatim>\<open>Send(7)\<close> appends; the first wakes, returns 7 and
  leaves the capacity 1, one more than the 0 it entered with. And the call does not
  return when the element type is an interface type and the front item is its nil
  value: on a queue of capacity 1 after \<^verbatim>\<open>Send(nil)\<close>, \<^verbatim>\<open>Receive\<close> panics in the type
  assertion, after the decrement and the removal and before the second broadcast.
\<close>

theorem Receive_beside_second_Receive:
  "\<not> close (NewChannel 0 :: nat Channel)
   \<and> capacity (NewChannel 0 :: nat Channel) = 0
   \<and> Receive_run \<lparr>zero_value = 0, is_interface = False\<rparr> (NewChannel 0 :: nat Channel)
        [\<lambda>c. fst (Send (fst (Receive \<lparr>zero_value = 0, is_interface = False\<rparr> c)) 7)]
       = (\<lparr>store = [], capacity = 1, close = False\<rparr>, RecvReturned 7 True,
          [CapacityInc, Broadcast, Wait, CapacityDec, RemoveFront, Broadcast])
   \<and> \<not> close (fst (Send (NewChannel 1 :: string option Channel) None))
   \<and> Receive_run \<lparr>zero_value = None, is_interface = True\<rparr>
        (fst (Send (NewChannel 1 :: string option Channel) None)) []
       = (\<lparr>store = [], capacity = 1, close = False\<rparr>,
          RecvPanicked ''interface conversion: interface is nil'',
          [CapacityInc, Broadcast, CapacityDec, RemoveFront])"
  by (simp add: NewChannel_def Receive_run_def Receive_def Receive_loop_def Receive_wake_def
        Send_def Send_loop_def)

text \<open>
  Claim C1 says that a \<^verbatim>\<open>Send\<close> blocked on a full queue returns the "closed" error once
  \<^verbatim>\<open>Close\<close> has woken it. On the code it does not: with the queue \<open>[1]\<close> of capacity 1, a
  \<^verbatim>\<open>Send(2)\<close> parks; \<^verbatim>\<open>Close\<close> sets the flag and broadcasts; the woken \<^verbatim>\<open>Send\<close> tests the
  length against the capacity only and parks again, and so it does after every later
  wake-up, since a \<^verbatim>\<open>Receive\<close> or \<^verbatim>\<open>Send\<close> entering a closed queue returns at once and
  leaves the queue full.
\<close>

theorem Send_parked_at_Close:
  "Send \<lparr>store = [1::nat], capacity = 1, close = False\<rparr> 2
     = (\<lparr>store = [1], capacity = 1, close = False\<rparr>, SendParked, [Wait])
   \<and> Close \<lparr>store = [1::nat], capacity = 1, close = False\<rparr>
     = (\<lparr>store = [1], capacity = 1, close = True\<rparr>, None, [Broadcast])
   \<and> Send_wake \<lparr>store = [1::nat], capacity = 1, close = True\<rparr> 2
     = (\<lparr>store = [1], capacity = 1, close = True\<rparr>, SendParked, [Wait])
   \<and> Send_run \<lparr>store = [1::nat], capacity = 1, close = False\<rparr> 2
       [\<lambda>c. fst (Close c), \<lambda>c. fst (Receive \<lparr>zero_value = 0, is_interface = False\<rparr> c),
        \<lambda>c. fst (Send c 3)]
     = (\<lparr>store = [1], capacity = 1, close = True\<rparr>, SendParked, [Wait, Wait, Wait, Wait])"
  by (simp add: Send_def Send_loop_def Send_wake_def Close_def Send_run_def Receive_def)

text \<open>
  Claim C4. On a closed queue \<^verbatim>\<open>Receive\<close> returns the zero value and \<open>ok = False\<close> in its
  first segment, whatever is stored: the queue (items, capacity, flag) is unchanged, no
  primitive action is performed (no \<^verbatim>\<open>capacity++\<close>, no \<^verbatim>\<open>Wait\<close>, no removal), and the whole
  call is that segment, whatever the other goroutines would do.
\<close>

theorem Receive_closed:
  assumes "close ch"
  shows "Receive G ch = (ch, RecvReturned (zero_value G) False, [])
         \<and> Receive_run G ch envs = (ch, RecvReturned (zero_value G) False, [])"
  using assms by (simp add: Receive_def Receive_run_def)

theorem Receive_closed_witness:
  "close \<lparr>store = [4::nat, 5], capacity = 2, close = True\<rparr>
   \<and> Receive \<lparr>zero_value = 0, is_interface = False\<rparr>
        \<lparr>store = [4::nat, 5], capacity = 2, close = True\<rparr>
       = (\<lparr>store = [4, 5], capacity = 2, close = True\<rparr>, RecvReturned 0 False, [])"
  using Receive_closed [where ch = "\<lparr>store = [4::nat, 5], capacity = 2, close = True\<rparr>"
      and G = "\<lparr>zero_value = 0, is_interface = False\<rparr>" and envs = "[]"]
  by simp

lemma act_keeps_closed: "close ch \<Longrightarrow> close (act G a ch)"
  by (cases a)
     (auto simp: Send_def Send_wake_def Send_loop_def Receive_def Receive_wake_def
        Receive_loop_def Close_def split: list.splits)

lemma acts_keep_closed: "close ch \<Longrightarrow> close (fold (act G) as ch)"
  by (induction as arbitrary: ch) (auto simp: act_keeps_closed)

text \<open>
  Claim C9. \<^verbatim>\<open>Close\<close> on a queue that is not closed sets the flag, broadcasts and returns
  no error; \<^verbatim>\<open>Close\<close> on a closed queue returns the error "close is already closed" and
  leaves the queue (items, capacity, flag) as it is; and after a first \<^verbatim>\<open>Close\<close>,
  whatever segments of \<^verbatim>\<open>Send\<close>, \<^verbatim>\<open>Receive\<close> and \<^verbatim>\<open>Close\<close> calls have run since, a
  \<^verbatim>\<open>Close\<close> returns that error and changes nothing.
\<close>

theorem Close_once:
  "(\<not> close ch \<longrightarrow> Close ch = (ch\<lparr>close := True\<rparr>, None, [Broadcast]))
   \<and> (close ch \<longrightarrow> Close ch = (ch, Some ''close is already closed'', []))
   \<and> Close (fold (act G) as (fst (Close ch)))
       = (fold (act G) as (fst (Close ch)), Some ''close is already closed'', [])"
proof -
  have "close (fst (Close ch))" by (simp add: Close_def)
  then have "close (fold (act G) as (fst (Close ch)))" by (rule acts_keep_closed)
  then show ?thesis by (simp add: Close_def)
qed

theorem Close_once_witness:
  "\<not> close (NewChannel 2 :: nat Channel)
   \<and> Close (NewChannel 2 :: nat Channel) = (\<lparr>store = [], capacity = 2, close = True\<rparr>, None, [Broadcast])
   \<and> close \<lparr>store = [4::nat], capacity = 2, close = True\<rparr>
   \<and> Close \<lparr>store = [4::nat], capacity = 2, close = True\<rparr>
       = (\<lparr>store = [4], capacity = 2, close = True\<rparr>, Some ''close is already closed'', [])"
  using Close_once [where ch = "NewChannel 2 :: nat Channel"
      and G = "\<lparr>zero_value = 0, is_interface = False\<rparr>" and as = "[]"]
    Close_once [where ch = "\<lparr>store = [4::nat], capacity = 2, close = True\<rparr>"
      and G = "\<lparr>zero_value = 0, is_interface = False\<rparr>" and as = "[]"]
  by (simp add: NewChannel_def)

text \<open>
  Claim C10 says that on a queue created with a negative capacity and not closed,
  \<^verbatim>\<open>Send\<close> never waits. It does when a \<^verbatim>\<open>Receive\<close> is parked: on \<^verbatim>\<open>NewChannel(-1)\<close> a
  \<^verbatim>\<open>Receive\<close> raises the capacity to 0 and parks on the empty queue, and a \<^verbatim>\<open>Send\<close> then
  finds length 0 equal to capacity 0 and parks too.
\<close>

theorem Send_waits_negative_capacity:
  "sint (capacity (NewChannel (-1) :: nat Channel)) < 0
   \<and> Receive \<lparr>zero_value = 0, is_interface = False\<rparr> (NewChannel (-1) :: nat Channel)
       = (\<lparr>store = [], capacity = 0, close = False\<rparr>, RecvParked, [CapacityInc, Broadcast, Wait])
   \<and> Send \<lparr>store = [], capacity = 0, close = False\<rparr> (5::nat)
       = (\<lparr>store = [], capacity = 0, close = False\<rparr>, SendParked, [Wait])"
  by (simp add: NewChannel_def Receive_def Receive_loop_def Send_def Send_loop_def)

lemma Send_many_negative:
  "sint (capacity ch) < 0 \<Longrightarrow> \<not> close ch \<Longrightarrow>
     Send_many ch vs = (ch\<lparr>store := store ch @ vs\<rparr>, SendReturned None)"
proof (induction vs arbitrary: ch)
  case Nil
  then show ?case by simp
next
  case (Cons v vs)
  have "Send ch v = (ch\<lparr>store := store ch @ [v]\<rparr>, SendReturned None, [PushBack, Broadcast])"
    using Cons.prems by (simp add: Send_def Send_loop_def)
  moreover have "Send_many (ch\<lparr>store := store ch @ [v]\<rparr>) vs
      = (ch\<lparr>store := store ch @ [v]\<rparr>\<lparr>store := store (ch\<lparr>store := store ch @ [v]\<rparr>) @ vs\<rparr>, SendReturned None)"
    using Cons.prems by (intro Cons.IH) simp_all
  ultimately show ?case by simp
qed

lemma parked_Receives:
  "((\<lambda>q. fst (Receive G q)) ^^ k) (NewChannel c)
     = \<lparr>store = [], capacity = c + of_nat k, close = False\<rparr>"
proof (induction k)
  case 0
  show ?case by (simp add: NewChannel_def)
next
  case (Suc k)
  then show ?case by (simp add: Receive_def Receive_loop_def add.assoc)
qed

lemma sint_add_parked:
  assumes "sint (c :: 64 word) < 0" and "int k < - sint c"
  shows "sint (c + of_nat k) = sint c + int k"
proof -
  have lo: "- (2 ^ 63) \<le> sint c" using sint_ge [of c] by simp
  have eq: "c + of_nat k = word_of_int (sint c + int k)" by simp
  have "sint (word_of_int (sint c + int k) :: 64 word) = signed_take_bit 63 (sint c + int k)"
    by (simp only: sint_sbintrunc') simp
  also have "\<dots> = sint c + int k"
    using lo assms by (intro signed_take_bit_int_eq_self) simp_all
  finally show ?thesis by (simp only: eq)
qed

text \<open>
  Claim C10, amended. \<^verbatim>\<open>NewChannel\<close> takes any \<^verbatim>\<open>int\<close> as capacity and returns an open
  queue with it. On a queue that is not closed and whose capacity field is negative at
  the call, \<^verbatim>\<open>Send\<close> does not wait: it appends the message, broadcasts and returns no
  error; any number of consecutive \<^verbatim>\<open>Send\<close> calls all succeed and the length grows by
  that number; the bound \<open>length \<le> capacity\<close> is false there, and the new queue
  satisfies \<open>0 \<le> length \<le> capacity\<close> exactly when the capacity given is not negative.
  The capacity field of a queue created with capacity \<open>c\<close> on which \<open>k\<close> calls of
  \<^verbatim>\<open>Receive\<close> are parked is \<open>c + k\<close> in 64-bit arithmetic; for a negative \<open>c\<close> and
  \<open>k < - c\<close> that is the number \<open>c + k\<close>, which is negative.
\<close>

theorem Send_negative_capacity:
  assumes "sint (capacity ch) < 0" and "\<not> close ch"
  shows "Send ch v = (ch\<lparr>store := store ch @ [v]\<rparr>, SendReturned None, [PushBack, Broadcast])
         \<and> Send_many ch vs = (ch\<lparr>store := store ch @ vs\<rparr>, SendReturned None)
         \<and> length (store (fst (Send_many ch vs))) = length (store ch) + length vs
         \<and> \<not> int (length (store ch)) \<le> sint (capacity ch)
         \<and> capacity (NewChannel c :: 'a Channel) = c
         \<and> \<not> close (NewChannel c :: 'a Channel)
         \<and> ((\<lambda>q. fst (Receive G q)) ^^ k) (NewChannel c)
              = \<lparr>store = [], capacity = c + of_nat k, close = False\<rparr>
         \<and> (sint c < 0 \<and> int k < - sint c \<longrightarrow> sint (c + of_nat k) = sint c + int k)
         \<and> ((0 \<le> int (length (store (NewChannel c :: 'a Channel)))
              \<and> int (length (store (NewChannel c :: 'a Channel)))
                    \<le> sint (capacity (NewChannel c :: 'a Channel)))
            \<longleftrightarrow> 0 \<le> sint c)"
  using assms Send_many_negative [OF assms, of vs]
    parked_Receives [where G = G and k = k and c = c] sint_add_parked [of c k]
  by (simp add: Send_def Send_loop_def NewChannel_def)

theorem Send_negative_capacity_witness:
  "sint (capacity (NewChannel (-1) :: nat Channel)) < 0 \<and> \<not> close (NewChannel (-1) :: nat Channel)
   \<and> Send_many (NewChannel (-1) :: nat Channel) [7, 8, 9]
       = (\<lparr>store = [7, 8, 9], capacity = -1, close = False\<rparr>, SendReturned None)
   \<and> sint (-2 :: 64 word) < 0 \<and> int 1 < - sint (-2 :: 64 word)
   \<and> sint (-2 + of_nat 1 :: 64 word) = -1"
  using Send_negative_capacity [where ch = "NewChannel (-1) :: nat Channel" and v = 7
      and vs = "[7, 8, 9]" and c = "-2" and G = "\<lparr>zero_value = 0, is_interface = False\<rparr>"
      and k = 1]
  by (simp add: NewChannel_def Send_def Send_loop_def)

section \<open>Properties of the custom mutex\<close>

lemma perform_stopped:
  "\<not> serving m \<Longrightarrow> perform m c = (m, NeverCompletes)"
  by (cases c) (simp_all add: Mutex_Get_def Mutex_Send_def Mutex_Close_def select_case_def)

lemma perform_all_stopped:
  "\<not> serving m \<Longrightarrow> perform_all m cs = (m, replicate (length cs) NeverCompletes)"
  by (induction cs) (simp_all add: perform_stopped)

lemma Mutex_Close_stops: "Mutex_Close m = Some m' \<Longrightarrow> \<not> serving m'"
  by (auto simp: Mutex_Close_def select_case_def split: if_splits)

text \<open>
  Claim C5. Once \<^verbatim>\<open>Close\<close> has completed, the goroutine has left its loop: no request
  offered on any of the three channels is taken any more, so \<^verbatim>\<open>Get\<close> and \<^verbatim>\<open>Send\<close> never
  return, and of any sequence of later calls not one completes and the state stays as
  \<^verbatim>\<open>Close\<close> left it.
\<close>

theorem Mutex_after_Close:
  assumes "Mutex_Close m = Some m'"
  shows "Mutex_Get m' = None \<and> Mutex_Send m' v = None
         \<and> select_case m' r = None
         \<and> perform_all m' cs = (m', replicate (length cs) NeverCompletes)"
proof -
  have "\<not> serving m'" using assms by (rule Mutex_Close_stops)
  then show ?thesis
    by (simp add: perform_all_stopped Mutex_Get_def Mutex_Send_def select_case_def)
qed

theorem Mutex_after_Close_witness:
  "Mutex_Close (NewMutex (0::nat)) = Some \<lparr>data = 0, serving = False\<rparr>
   \<and> perform_all \<lparr>data = 0::nat, serving = False\<rparr> [CallGet, CallSend 3, CallGet]
       = (\<lparr>data = 0, serving = False\<rparr>, [NeverCompletes, NeverCompletes, NeverCompletes])"
proof -
  have c: "Mutex_Close (NewMutex (0::nat)) = Some \<lparr>data = 0, serving = False\<rparr>"
    by (simp add: Mutex_Close_def select_case_def NewMutex_def)
  show ?thesis
    using c Mutex_after_Close [OF c, where cs = "[CallGet, CallSend 3, CallGet]"]
    by (simp add: numeral_3_eq_3)
qed

lemma perform_all_step:
  "fst (perform_all m (c # cs)) = fst (perform_all (fst (perform m c)) cs)"
  by (simp split: prod.splits)

lemma perform_data:
  "\<forall>w. c \<noteq> CallSend w \<Longrightarrow> data (fst (perform m c)) = data m"
  by (cases c)
     (auto simp: Mutex_Get_def Mutex_Close_def select_case_def split: if_splits)

lemma perform_all_data:
  "\<forall>c\<in>set cs. \<forall>w. c \<noteq> CallSend w \<Longrightarrow> data (fst (perform_all m cs)) = data m"
proof (induction cs arbitrary: m)
  case Nil
  then show ?case by simp
next
  case (Cons c cs)
  have "data (fst (perform m c)) = data m" using Cons.prems by (intro perform_data) simp
  moreover have "data (fst (perform_all (fst (perform m c)) cs)) = data (fst (perform m c))"
    using Cons.prems by (intro Cons.IH) simp
  ultimately show ?case by (simp only: perform_all_step)
qed

lemma perform_serving:
  "c \<noteq> CallClose \<Longrightarrow> serving (fst (perform m c)) = serving m"
  by (cases c)
     (auto simp: Mutex_Get_def Mutex_Send_def select_case_def split: if_splits)

lemma perform_all_serving:
  "CallClose \<notin> set cs \<Longrightarrow> serving (fst (perform_all m cs)) = serving m"
proof (induction cs arbitrary: m)
  case Nil
  then show ?case by simp
next
  case (Cons c cs)
  have "serving (fst (perform m c)) = serving m" using Cons.prems by (intro perform_serving) auto
  moreover have "serving (fst (perform_all (fst (perform m c)) cs)) = serving (fst (perform m c))"
    using Cons.prems by (intro Cons.IH) simp
  ultimately show ?case by (simp only: perform_all_step)
qed

lemma perform_stays_stopped: "\<not> serving m \<Longrightarrow> \<not> serving (fst (perform m c))"
  by (simp add: perform_stopped)

lemma perform_Close_stops: "\<not> serving (fst (perform m CallClose))"
  by (simp add: Mutex_Close_def select_case_def)

lemma perform_all_stays_stopped: "\<not> serving m \<Longrightarrow> \<not> serving (fst (perform_all m cs))"
  by (simp add: perform_all_stopped)

lemma perform_all_Close_stops:
  "CallClose \<in> set cs \<Longrightarrow> \<not> serving (fst (perform_all m cs))"
proof (induction cs arbitrary: m)
  case Nil
  then show ?case by simp
next
  case (Cons c cs)
  show ?case
  proof (cases "c = CallClose")
    case True
    then have "\<not> serving (fst (perform m c))" using perform_Close_stops [of m] by simp
    then have "\<not> serving (fst (perform_all (fst (perform m c)) cs))"
      by (rule perform_all_stays_stopped)
    then show ?thesis unfolding perform_all_step .
  next
    case False
    with Cons.prems have "CallClose \<in> set cs" by simp
    then have "\<not> serving (fst (perform_all (fst (perform m c)) cs))" by (rule Cons.IH)
    then show ?thesis unfolding perform_all_step .
  qed
qed

text \<open>
  Claim C6, amended. After a \<^verbatim>\<open>Send(v)\<close> that has completed, and any calls served since
  of which none is a \<^verbatim>\<open>Send\<close> and none is a \<^verbatim>\<open>Close\<close>, a \<^verbatim>\<open>Get\<close> returns \<open>v\<close>. With a
  \<^verbatim>\<open>Close\<close> among those calls the \<^verbatim>\<open>Get\<close> never returns; and whatever calls other than
  \<^verbatim>\<open>Send\<close> came in between, a \<^verbatim>\<open>Get\<close> that returns, returns \<open>v\<close>.
\<close>

theorem Mutex_Get_after_Send:
  assumes "Mutex_Send m v = Some m1"
    and "\<forall>c\<in>set cs. \<forall>w. c \<noteq> CallSend w"
  shows "(CallClose \<notin> set cs \<longrightarrow>
            Mutex_Get (fst (perform_all m1 cs)) = Some (fst (perform_all m1 cs), v))
         \<and> (CallClose \<in> set cs \<longrightarrow> Mutex_Get (fst (perform_all m1 cs)) = None)
         \<and> (\<forall>m2 x. Mutex_Get (fst (perform_all m1 cs)) = Some (m2, x) \<longrightarrow> x = v)"
proof -
  let ?m2 = "fst (perform_all m1 cs)"
  from assms(1) have m1: "data m1 = v" "serving m1"
    by (auto simp: Mutex_Send_def select_case_def split: if_splits)
  have d: "data ?m2 = v" using perform_all_data [OF assms(2), of m1] m1 by simp
  have s: "CallClose \<notin> set cs \<Longrightarrow> serving ?m2"
    using perform_all_serving [of cs m1] m1 by simp
  have t: "CallClose \<in> set cs \<Longrightarrow> \<not> serving ?m2"
    by (rule perform_all_Close_stops)
  show ?thesis using d s t
    by (auto simp: Mutex_Get_def select_case_def split: if_splits)
qed

theorem Mutex_Get_after_Send_witness:
  "Mutex_Send (NewMutex (0::nat)) 10 = Some \<lparr>data = 10, serving = True\<rparr>
   \<and> Mutex_Get (fst (perform_all \<lparr>data = 10::nat, serving = True\<rparr> [CallGet, CallGet]))
       = Some (\<lparr>data = 10, serving = True\<rparr>, 10)"
proof -
  have s: "Mutex_Send (NewMutex (0::nat)) 10 = Some \<lparr>data = 10, serving = True\<rparr>"
    by (simp add: Mutex_Send_def select_case_def NewMutex_def)
  have g: "\<forall>c\<in>set [CallGet, CallGet :: nat call]. \<forall>w. c \<noteq> CallSend w" by simp
  show ?thesis
    using s Mutex_Get_after_Send [OF s g]
    by (simp add: Mutex_Get_def select_case_def)
qed

text \<open>
  Claim C6 says that a \<^verbatim>\<open>Get\<close> after a completed \<^verbatim>\<open>Send(v)\<close>, with no other \<^verbatim>\<open>Send\<close> served
  in between, returns \<open>v\<close>. It does not return at all when a \<^verbatim>\<open>Close\<close> was served in
  between: after \<^verbatim>\<open>Send(10)\<close> and \<^verbatim>\<open>Close()\<close> the goroutine has left its loop, and
  \<^verbatim>\<open>Get()\<close> never completes.
\<close>

theorem Get_after_Send_and_Close:
  "Mutex_Send (NewMutex (0::nat)) 10 = Some \<lparr>data = 10, serving = True\<rparr>
   \<and> perform_all \<lparr>data = 10::nat, serving = True\<rparr> [CallClose]
       = (\<lparr>data = 10, serving = False\<rparr>, [CloseAccepted])
   \<and> Mutex_Get \<lparr>data = 10::nat, serving = False\<rparr> = None
   \<and> perform_all \<lparr>data = 10::nat, serving = True\<rparr> [CallClose, CallGet]
       = (\<lparr>data = 10, serving = False\<rparr>, [CloseAccepted, NeverCompletes])"
  by (simp add: Mutex_Send_def Mutex_Close_def Mutex_Get_def select_case_def NewMutex_def)

section \<open>Properties of the publisher\<close>

lemma well_formed_init: "well_formed NewPublisher"
  by (simp add: well_formed_def NewPublisher_def)

lemma well_formed_CreateTopic:
  assumes "well_formed p" shows "well_formed (CreateTopic topic p)"
  using assms unfolding well_formed_def CreateTopic_def
  by (auto split: if_splits)

lemma well_formed_Subscribe:
  assumes "well_formed p" shows "well_formed (fst (Subscribe topic p))"
proof (cases "subscribers p topic")
  case None
  then have "fst (Subscribe topic p) = fst (make_chan p 1)"
    by (simp add: Subscribe_def make_chan_def)
  then show ?thesis using assms unfolding well_formed_def make_chan_def
    by (auto split: if_splits)
next
  case (Some subs)
  have fresh: "\<And>t s. subscribers p t = Some s \<Longrightarrow> next_chan p \<notin> set s"
  proof
    fix t s assume "subscribers p t = Some s" "next_chan p \<in> set s"
    with assms obtain mb where "chans p (next_chan p) = Some mb"
      unfolding well_formed_def by blast
    moreover from assms have "chans p (next_chan p) = None"
      unfolding well_formed_def by simp
    ultimately show False by simp
  qed
  have eq: "fst (Subscribe topic p) =
      p\<lparr>chans := (chans p)(next_chan p \<mapsto> \<lparr>buffer = [], cap = 1, closed = False, history = []\<rparr>),
        next_chan := Suc (next_chan p),
        subscribers := (subscribers p)(topic \<mapsto> subs @ [next_chan p])\<rparr>"
    using Some by (simp add: Subscribe_def make_chan_def)
  show ?thesis
    unfolding eq well_formed_def
  proof (intro conjI allI impI)
    fix t s
    assume a: "subscribers (p\<lparr>chans := (chans p)(next_chan p \<mapsto> \<lparr>buffer = [], cap = 1, closed = False, history = []\<rparr>),
        next_chan := Suc (next_chan p),
        subscribers := (subscribers p)(topic \<mapsto> subs @ [next_chan p])\<rparr>) t = Some s"
    show "distinct s"
    proof (cases "t = topic")
      case True
      with a have "s = subs @ [next_chan p]" by simp
      moreover have "distinct subs" using assms Some unfolding well_formed_def by blast
      moreover have "next_chan p \<notin> set subs" using fresh Some by blast
      ultimately show ?thesis by simp
    next
      case False
      with a have "subscribers p t = Some s" by simp
      then show ?thesis using assms unfolding well_formed_def by blast
    qed
    show "\<forall>c\<in>set s. \<exists>mb. chans (p\<lparr>chans := (chans p)(next_chan p \<mapsto> \<lparr>buffer = [], cap = 1, closed = False, history = []\<rparr>),
        next_chan := Suc (next_chan p),
        subscribers := (subscribers p)(topic \<mapsto> subs @ [next_chan p])\<rparr>) c = Some mb \<and> \<not> closed mb"
    proof
      fix c assume c: "c \<in> set s"
      show "\<exists>mb. chans (p\<lparr>chans := (chans p)(next_chan p \<mapsto> \<lparr>buffer = [], cap = 1, closed = False, history = []\<rparr>),
        next_chan := Suc (next_chan p),
        subscribers := (subscribers p)(topic \<mapsto> subs @ [next_chan p])\<rparr>) c = Some mb \<and> \<not> closed mb"
      proof (cases "c = next_chan p")
        case True
        then show ?thesis by simp
      next
        case False
        have "\<exists>s'. subscribers p t = Some s' \<and> c \<in> set s'"
        proof (cases "t = topic")
          case True
          with a c False Some show ?thesis by auto
        next
          case f: False
          with a c show ?thesis by auto
        qed
        then obtain mb where "chans p c = Some mb \<and> \<not> closed mb"
          using assms unfolding well_formed_def by blast
        with False show ?thesis by simp
      qed
    qed
  next
    fix t1 t2 s1 s2
    assume a: "subscribers (p\<lparr>chans := (chans p)(next_chan p \<mapsto> \<lparr>buffer = [], cap = 1, closed = False, history = []\<rparr>),
        next_chan := Suc (next_chan p),
        subscribers := (subscribers p)(topic \<mapsto> subs @ [next_chan p])\<rparr>) t1 = Some s1 \<and>
      subscribers (p\<lparr>chans := (chans p)(next_chan p \<mapsto> \<lparr>buffer = [], cap = 1, closed = False, history = []\<rparr>),
        next_chan := Suc (next_chan p),
        subscribers := (subscribers p)(topic \<mapsto> subs @ [next_chan p])\<rparr>) t2 = Some s2 \<and> t1 \<noteq> t2"
    have dis: "\<And>u1 u2 r1 r2. subscribers p u1 = Some r1 \<Longrightarrow> subscribers p u2 = Some r2 \<Longrightarrow> u1 \<noteq> u2
        \<Longrightarrow> set r1 \<inter> set r2 = {}"
      using assms unfolding well_formed_def by blast
    show "set s1 \<inter> set s2 = {}"
    proof (cases "t1 = topic")
      case True
      with a have s1: "s1 = subs @ [next_chan p]" and s2: "subscribers p t2 = Some s2" and ne: "t2 \<noteq> topic"
        by auto
      have "set subs \<inter> set s2 = {}" using dis[OF Some s2] ne by blast
      moreover have "next_chan p \<notin> set s2" using fresh s2 by blast
      ultimately show ?thesis using s1 by auto
    next
      case False
      with a have s1: "subscribers p t1 = Some s1" by simp
      show ?thesis
      proof (cases "t2 = topic")
        case True
        with a have s2: "s2 = subs @ [next_chan p]" by simp
        have "set s1 \<inter> set subs = {}" using dis[OF s1 Some] False by blast
        moreover have "next_chan p \<notin> set s1" using fresh s1 by blast
        ultimately show ?thesis using s2 by auto
      next
        case f2: False
        with a have s2: "subscribers p t2 = Some s2" by simp
        show ?thesis using dis[OF s1 s2] a by blast
      qed
    qed
  next
    fix c
    assume "next_chan (p\<lparr>chans := (chans p)(next_chan p \<mapsto> \<lparr>buffer = [], cap = 1, closed = False, history = []\<rparr>),
        next_chan := Suc (next_chan p),
        subscribers := (subscribers p)(topic \<mapsto> subs @ [next_chan p])\<rparr>) \<le> c"
    then have "Suc (next_chan p) \<le> c" by simp
    then have "next_chan p \<le> c" "c \<noteq> next_chan p" by auto
    then show "chans (p\<lparr>chans := (chans p)(next_chan p \<mapsto> \<lparr>buffer = [], cap = 1, closed = False, history = []\<rparr>),
        next_chan := Suc (next_chan p),
        subscribers := (subscribers p)(topic \<mapsto> subs @ [next_chan p])\<rparr>) c = None"
      using assms unfolding well_formed_def by simp
  qed
qed


lemma same_shape_refl: "same_shape p p"
  by (simp add: same_shape_def)

lemma same_shape_trans: "same_shape p q \<Longrightarrow> same_shape q r \<Longrightarrow> same_shape p r"
  by (simp add: same_shape_def)

lemma well_formed_same_shape:
  assumes "well_formed p" and "same_shape p q"
  shows "well_formed q"
proof -
  have open_q: "\<And>c mb. chans p c = Some mb \<Longrightarrow> \<not> closed mb \<Longrightarrow> \<exists>mb'. chans q c = Some mb' \<and> \<not> closed mb'"
  proof -
    fix c mb assume a: "chans p c = Some mb" "\<not> closed mb"
    from assms(2) have "map_option closed (chans q c) = map_option closed (chans p c)"
      unfolding same_shape_def by blast
    with a show "\<exists>mb'. chans q c = Some mb' \<and> \<not> closed mb'"
      by (cases "chans q c") auto
  qed
  have none_q: "\<And>c. chans p c = None \<Longrightarrow> chans q c = None"
  proof -
    fix c assume a: "chans p c = None"
    from assms(2) have "map_option closed (chans q c) = map_option closed (chans p c)"
      unfolding same_shape_def by blast
    with a show "chans q c = None" by simp
  qed
  have subs: "subscribers q = subscribers p" and nxt: "next_chan q = next_chan p"
    using assms(2) unfolding same_shape_def by simp_all
  show ?thesis
    unfolding well_formed_def subs nxt
  proof (intro conjI allI impI)
    fix topic s assume "subscribers p topic = Some s"
    with assms(1) have d: "distinct s" and o: "\<forall>c\<in>set s. \<exists>mb. chans p c = Some mb \<and> \<not> closed mb"
      unfolding well_formed_def by blast+
    show "distinct s" by (rule d)
    show "\<forall>c\<in>set s. \<exists>mb. chans q c = Some mb \<and> \<not> closed mb"
      using o open_q by blast
  next
    fix t1 t2 s1 s2
    assume "subscribers p t1 = Some s1 \<and> subscribers p t2 = Some s2 \<and> t1 \<noteq> t2"
    with assms(1) show "set s1 \<inter> set s2 = {}" unfolding well_formed_def by blast
  next
    fix c assume "next_chan p \<le> c"
    with assms(1) have "chans p c = None" unfolding well_formed_def by blast
    then show "chans q c = None" by (rule none_q)
  qed
qed

lemma chan_send_shape:
  "chan_send h c message = Sent h' \<Longrightarrow>
     map_option closed (h' d) = map_option closed (h d) \<and> map_option cap (h' d) = map_option cap (h d)"
  by (auto simp: chan_send_def split: option.splits if_splits)

lemma Publish_loop_shape: "same_shape p (fst (Publish_loop p todo message))"
proof (induction todo arbitrary: p)
  case Nil
  then show ?case by (simp add: same_shape_refl)
next
  case (Cons ch rest)
  show ?case
  proof (cases "chan_send (chans p) ch message")
    case (Sent h)
    have 1: "same_shape p (p\<lparr>chans := h\<rparr>)"
      using chan_send_shape [OF Sent] by (simp add: same_shape_def)
    have 2: "same_shape (p\<lparr>chans := h\<rparr>) (fst (Publish_loop (p\<lparr>chans := h\<rparr>) rest message))"
      by (rule Cons.IH)
    have "fst (Publish_loop p (ch # rest) message) = fst (Publish_loop (p\<lparr>chans := h\<rparr>) rest message)"
      using Sent by (simp split: prod.splits)
    with same_shape_trans [OF 1 2] show ?thesis by simp
  next
    case SendBlocks
    then show ?thesis by (simp add: same_shape_refl)
  next
    case (SendPanics e)
    then show ?thesis by (simp add: same_shape_refl)
  qed
qed

lemma Publish_shape: "same_shape p (fst (Publish topic message p))"
  by (cases "subscribers p topic") (simp_all add: Publish_def same_shape_refl Publish_loop_shape)

lemma subscriber_receive_shape: "same_shape p (subscriber_receive c p)"
  by (auto simp: subscriber_receive_def chan_recv_def same_shape_def
        split: option.splits list.splits)


lemma chan_close_open:
  "h c = Some mb \<Longrightarrow> \<not> closed mb \<Longrightarrow> chan_close h c = Inr (close_in h {c})"
  by (auto simp: chan_close_def close_in_def)

lemma close_in_insert: "close_in (close_in h {c}) cs = close_in h (insert c cs)"
  by (auto simp: close_in_def fun_eq_iff option.map_comp o_def split: option.splits)

lemma close_all_open:
  "distinct cs \<Longrightarrow> \<forall>c\<in>set cs. \<exists>mb. h c = Some mb \<and> \<not> closed mb \<Longrightarrow>
     close_all h cs = (close_in h (set cs), None)"
proof (induction cs arbitrary: h)
  case Nil
  then show ?case by (simp add: close_in_def)
next
  case (Cons c cs)
  then obtain mb where mb: "h c = Some mb" "\<not> closed mb" by auto
  have step: "chan_close h c = Inr (close_in h {c})" using mb by (rule chan_close_open)
  have rest: "\<forall>d\<in>set cs. \<exists>mb. close_in h {c} d = Some mb \<and> \<not> closed mb"
  proof
    fix d assume d: "d \<in> set cs"
    with Cons.prems have "d \<noteq> c" by auto
    moreover from d Cons.prems obtain md where "h d = Some md \<and> \<not> closed md" by auto
    ultimately show "\<exists>mb. close_in h {c} d = Some mb \<and> \<not> closed mb"
      by (simp add: close_in_def)
  qed
  have "close_all (close_in h {c}) cs = (close_in (close_in h {c}) (set cs), None)"
    using Cons.prems rest by (intro Cons.IH) simp_all
  then show ?case using step by (simp add: close_in_insert)
qed

lemma CloseTopic_well_formed_eq:
  assumes "well_formed p" and "subscribers p topic = Some subs"
  shows "CloseTopic topic p =
           (p\<lparr>chans := close_in (chans p) (set subs),
              subscribers := (subscribers p)(topic := None)\<rparr>, Returns None)"
proof -
  from assms have "distinct subs" "\<forall>c\<in>set subs. \<exists>mb. chans p c = Some mb \<and> \<not> closed mb"
    unfolding well_formed_def by blast+
  then have "close_all (chans p) subs = (close_in (chans p) (set subs), None)"
    by (rule close_all_open)
  with assms(2) show ?thesis by (simp add: CloseTopic_def)
qed

lemma well_formed_CloseTopic:
  assumes "well_formed p" shows "well_formed (fst (CloseTopic topic p))"
proof (cases "subscribers p topic")
  case None
  then show ?thesis using assms by (simp add: CloseTopic_def)
next
  case (Some subs)
  have dis: "\<And>t s. subscribers p t = Some s \<Longrightarrow> t \<noteq> topic \<Longrightarrow> set s \<inter> set subs = {}"
    using assms Some unfolding well_formed_def by blast
  show ?thesis
    unfolding CloseTopic_well_formed_eq [OF assms Some] fst_conv well_formed_def
  proof (intro conjI allI impI)
    fix t s
    assume "subscribers (p\<lparr>chans := close_in (chans p) (set subs),
        subscribers := (subscribers p)(topic := None)\<rparr>) t = Some s"
    then have t: "t \<noteq> topic" "subscribers p t = Some s" by (auto split: if_splits)
    with assms have d: "distinct s" and o: "\<forall>c\<in>set s. \<exists>mb. chans p c = Some mb \<and> \<not> closed mb"
      unfolding well_formed_def by blast+
    show "distinct s" by (rule d)
    show "\<forall>c\<in>set s. \<exists>mb. chans (p\<lparr>chans := close_in (chans p) (set subs),
        subscribers := (subscribers p)(topic := None)\<rparr>) c = Some mb \<and> \<not> closed mb"
    proof
      fix c assume c: "c \<in> set s"
      with dis [OF t(2) t(1)] have "c \<notin> set subs" by blast
      with o c show "\<exists>mb. chans (p\<lparr>chans := close_in (chans p) (set subs),
        subscribers := (subscribers p)(topic := None)\<rparr>) c = Some mb \<and> \<not> closed mb"
        by (simp add: close_in_def)
    qed
  next
    fix t1 t2 s1 s2
    assume "subscribers (p\<lparr>chans := close_in (chans p) (set subs),
        subscribers := (subscribers p)(topic := None)\<rparr>) t1 = Some s1 \<and>
      subscribers (p\<lparr>chans := close_in (chans p) (set subs),
        subscribers := (subscribers p)(topic := None)\<rparr>) t2 = Some s2 \<and> t1 \<noteq> t2"
    then have "subscribers p t1 = Some s1 \<and> subscribers p t2 = Some s2 \<and> t1 \<noteq> t2"
      by (auto split: if_splits)
    with assms show "set s1 \<inter> set s2 = {}" unfolding well_formed_def by blast
  next
    fix c
    assume "next_chan (p\<lparr>chans := close_in (chans p) (set subs),
        subscribers := (subscribers p)(topic := None)\<rparr>) \<le> c"
    then have "chans p c = None" using assms unfolding well_formed_def by simp
    then show "chans (p\<lparr>chans := close_in (chans p) (set subs),
        subscribers := (subscribers p)(topic := None)\<rparr>) c = None"
      by (simp add: close_in_def)
  qed
qed

lemma index_of_Some:
  "index_of subs c = Some i \<Longrightarrow> i < length subs \<and> subs ! i = c"
proof (induction subs arbitrary: i)
  case Nil
  then show ?case by simp
next
  case (Cons x xs)
  show ?case
  proof (cases "x = c")
    case True
    with Cons.prems show ?thesis by simp
  next
    case False
    with Cons.prems obtain j where j: "index_of xs c = Some j" "i = Suc j" by auto
    with Cons.IH show ?thesis by simp
  qed
qed

lemma index_of_None: "index_of subs c = None \<longleftrightarrow> c \<notin> set subs"
  by (induction subs) auto

lemma set_without_index:
  assumes "i < length xs"
  shows "set xs \<subseteq> insert (xs ! i) (set (take i xs @ drop (Suc i) xs))"
proof -
  have "xs = take i xs @ xs ! i # drop (Suc i) xs" using assms by (rule id_take_nth_drop)
  then have "set xs = set (take i xs @ xs ! i # drop (Suc i) xs)" by simp
  then show ?thesis by auto
qed

lemma without_index_subset: "set (take i xs @ drop (Suc i) xs) \<subseteq> set xs"
  by (auto dest: in_set_takeD in_set_dropD)

lemma distinct_without_index:
  assumes "distinct xs" and "i < length xs"
  shows "distinct (take i xs @ drop (Suc i) xs) \<and> xs ! i \<notin> set (take i xs @ drop (Suc i) xs)"
proof -
  have "xs = take i xs @ xs ! i # drop (Suc i) xs" using assms(2) by (rule id_take_nth_drop)
  with assms(1) have "distinct (take i xs @ xs ! i # drop (Suc i) xs)" by simp
  then show ?thesis by auto
qed

lemma CloseSubscriber_well_formed_eq:
  assumes "well_formed p" and "subscribers p topic = Some subs" and "index_of subs c = Some i"
  shows "CloseSubscriber topic c p =
           (p\<lparr>chans := close_in (chans p) {c},
              subscribers := (subscribers p)(topic \<mapsto> take i subs @ drop (Suc i) subs)\<rparr>,
            Returns None)"
proof -
  from index_of_Some [OF assms(3)] have i: "i < length subs" "subs ! i = c" by simp_all
  then have "c \<in> set subs" by (metis nth_mem)
  with assms obtain mb where "chans p c = Some mb" "\<not> closed mb"
    unfolding well_formed_def by blast
  then have "chan_close (chans p) c = Inr (close_in (chans p) {c})" by (rule chan_close_open)
  with assms(2,3) i show ?thesis by (simp add: CloseSubscriber_def)
qed

lemma well_formed_CloseSubscriber:
  assumes "well_formed p" shows "well_formed (fst (CloseSubscriber topic c p))"
proof (cases "subscribers p topic")
  case None
  then show ?thesis using assms by (simp add: CloseSubscriber_def)
next
  case (Some subs)
  show ?thesis
  proof (cases "index_of subs c")
    case None
    with Some show ?thesis using assms by (simp add: CloseSubscriber_def)
  next
    case i: (Some i)
    let ?s' = "take i subs @ drop (Suc i) subs"
    let ?q = "p\<lparr>chans := close_in (chans p) {c}, subscribers := (subscribers p)(topic \<mapsto> ?s')\<rparr>"
    from index_of_Some [OF i] have il: "i < length subs" "subs ! i = c" by simp_all
    have dsubs: "distinct subs" using assms Some unfolding well_formed_def by blast
    have d': "distinct ?s'" and cnot: "c \<notin> set ?s'"
      using distinct_without_index [OF dsubs il(1)] il(2) by simp_all
    have sub': "set ?s' \<subseteq> set subs" by (rule without_index_subset)
    have cin: "c \<in> set subs" using il by (metis nth_mem)
    have dis: "\<And>t s. subscribers p t = Some s \<Longrightarrow> t \<noteq> topic \<Longrightarrow> set s \<inter> set subs = {}"
      using assms Some unfolding well_formed_def by blast
    have opn: "\<And>t s d. subscribers p t = Some s \<Longrightarrow> d \<in> set s \<Longrightarrow> \<exists>mb. chans p d = Some mb \<and> \<not> closed mb"
      using assms unfolding well_formed_def by blast
    have "well_formed ?q"
      unfolding well_formed_def
    proof (intro conjI allI impI)
      fix t s assume a: "subscribers ?q t = Some s"
      show "distinct s"
      proof (cases "t = topic")
        case True
        with a d' show ?thesis by simp
      next
        case False
        with a have "subscribers p t = Some s" by simp
        with assms show ?thesis unfolding well_formed_def by blast
      qed
      show "\<forall>d\<in>set s. \<exists>mb. chans ?q d = Some mb \<and> \<not> closed mb"
      proof
        fix d assume d: "d \<in> set s"
        have "d \<noteq> c \<and> (\<exists>mb. chans p d = Some mb \<and> \<not> closed mb)"
        proof (cases "t = topic")
          case True
          with a have "s = ?s'" by simp
          with d cnot sub' have "d \<noteq> c" "d \<in> set subs" by auto
          with opn [OF Some] show ?thesis by blast
        next
          case False
          with a have s: "subscribers p t = Some s" by simp
          from dis [OF s False] d cin have "d \<noteq> c" by blast
          with opn [OF s d] show ?thesis by blast
        qed
        then show "\<exists>mb. chans ?q d = Some mb \<and> \<not> closed mb"
          by (simp add: close_in_def)
      qed
    next
      fix t1 t2 s1 s2
      assume a: "subscribers ?q t1 = Some s1 \<and> subscribers ?q t2 = Some s2 \<and> t1 \<noteq> t2"
      have sub: "\<And>t s. subscribers ?q t = Some s \<Longrightarrow> \<exists>s0. subscribers p t = Some s0 \<and> set s \<subseteq> set s0"
      proof -
        fix t s assume q: "subscribers ?q t = Some s"
        show "\<exists>s0. subscribers p t = Some s0 \<and> set s \<subseteq> set s0"
        proof (cases "t = topic")
          case True
          with q Some sub' show ?thesis by auto
        next
          case False
          with q show ?thesis by auto
        qed
      qed
      from a sub obtain r1 r2 where r: "subscribers p t1 = Some r1" "set s1 \<subseteq> set r1"
          "subscribers p t2 = Some r2" "set s2 \<subseteq> set r2"
        by blast
      with a assms have "set r1 \<inter> set r2 = {}" unfolding well_formed_def by blast
      with r show "set s1 \<inter> set s2 = {}" by blast
    next
      fix d assume "next_chan ?q \<le> d"
      then have "chans p d = None" using assms unfolding well_formed_def by simp
      then show "chans ?q d = None" by (auto simp: close_in_def)
    qed
    then show ?thesis
      unfolding CloseSubscriber_well_formed_eq [OF assms Some i] by simp
  qed
qed

lemma well_formed_perform_op:
  assumes "well_formed p" shows "well_formed (perform_op oper p)"
proof (cases oper)
  case (OpCreateTopic t)
  then show ?thesis using assms by (simp add: well_formed_CreateTopic)
next
  case (OpSubscribe t)
  then show ?thesis using assms by (simp add: well_formed_Subscribe)
next
  case (OpPublish t m)
  then show ?thesis using well_formed_same_shape [OF assms Publish_shape] by simp
next
  case (OpCloseTopic t)
  then show ?thesis using assms by (simp add: well_formed_CloseTopic)
next
  case (OpCloseSubscriber t c)
  then show ?thesis using assms by (simp add: well_formed_CloseSubscriber)
qed

lemma reachable_well_formed: "reachable p \<Longrightarrow> well_formed p"
proof (induction rule: reachable.induct)
  case init
  show ?case by (rule well_formed_init)
next
  case (oper p oper)
  then show ?case by (simp add: well_formed_perform_op)
next
  case (recv p c)
  then show ?case using well_formed_same_shape subscriber_receive_shape by blast
next
  case (resume p todo message)
  then show ?case using well_formed_same_shape Publish_loop_shape by blast
qed

lemma listed_CreateTopic:
  "listed (CreateTopic t p) topic = (if topic = t then {} else listed p topic)"
  by (simp add: listed_def CreateTopic_def)

lemma listed_Subscribe: "listed p topic \<subseteq> listed (fst (Subscribe t p)) topic"
  by (auto simp: listed_def Subscribe_def make_chan_def split: option.splits)

lemma listed_same_shape: "same_shape p q \<Longrightarrow> listed q topic = listed p topic"
  by (simp add: listed_def same_shape_def)

lemma chan_close_keeps_closed:
  "chan_close h d = Inr h' \<Longrightarrow> h c = Some mb \<Longrightarrow> closed mb \<Longrightarrow> \<exists>mb'. h' c = Some mb' \<and> closed mb'"
  by (auto simp: chan_close_def split: option.splits if_splits)

lemma chan_close_closes:
  "chan_close h c = Inr h' \<Longrightarrow> \<exists>mb. h' c = Some mb \<and> closed mb"
  by (auto simp: chan_close_def split: option.splits if_splits)

lemma close_all_keeps_closed:
  "close_all h cs = (h', r) \<Longrightarrow> h c = Some mb \<Longrightarrow> closed mb \<Longrightarrow> \<exists>mb'. h' c = Some mb' \<and> closed mb'"
proof (induction cs arbitrary: h mb)
  case Nil
  then show ?case by simp
next
  case (Cons d cs)
  show ?case
  proof (cases "chan_close h d")
    case (Inl e)
    with Cons.prems show ?thesis by simp
  next
    case (Inr h1)
    with Cons.prems have r: "close_all h1 cs = (h', r)" by simp
    from chan_close_keeps_closed [OF Inr Cons.prems(2,3)] obtain m1 where "h1 c = Some m1" "closed m1"
      by blast
    with Cons.IH [OF r] show ?thesis by blast
  qed
qed

lemma close_all_closes:
  "close_all h cs = (h', None) \<Longrightarrow> c \<in> set cs \<Longrightarrow> \<exists>mb. h' c = Some mb \<and> closed mb"
proof (induction cs arbitrary: h)
  case Nil
  then show ?case by simp
next
  case (Cons d cs)
  show ?case
  proof (cases "chan_close h d")
    case (Inl e)
    with Cons.prems show ?thesis by simp
  next
    case (Inr h1)
    with Cons.prems have r: "close_all h1 cs = (h', None)" by simp
    show ?thesis
    proof (cases "c = d")
      case True
      with chan_close_closes [OF Inr] obtain m1 where "h1 c = Some m1" "closed m1" by blast
      with close_all_keeps_closed [OF r] show ?thesis by blast
    next
      case False
      with Cons.prems have "c \<in> set cs" by simp
      with Cons.IH [OF r] show ?thesis by blast
    qed
  qed
qed

text \<open>
  Claim C2, amended. For every operation other than \<^verbatim>\<open>CreateTopic\<close> on a topic that has
  subscribers, and for every state: a channel that the operation removes from a
  topic's subscriber list is closed in the state the operation leaves.
\<close>

theorem removed_mailbox_closed:
  assumes "\<forall>t. oper = OpCreateTopic t \<longrightarrow> listed p t = {}"
    and "removes oper p topic c"
  shows "is_closed (perform_op oper p) c"
proof (cases oper)
  case (OpCreateTopic t)
  with assms show ?thesis
    by (auto simp: removes_def listed_CreateTopic split: if_splits)
next
  case (OpSubscribe t)
  with assms(2) listed_Subscribe [of p topic t] show ?thesis
    by (auto simp: removes_def)
next
  case (OpPublish t m)
  with assms(2) listed_same_shape [OF Publish_shape, of t m p topic] show ?thesis
    by (simp add: removes_def)
next
  case (OpCloseTopic t)
  show ?thesis
  proof (cases "subscribers p t")
    case None
    with OpCloseTopic assms(2) show ?thesis by (simp add: removes_def CloseTopic_def)
  next
    case (Some subs)
    obtain h r where ca: "close_all (chans p) subs = (h, r)"
      by (cases "close_all (chans p) subs") auto
    show ?thesis
    proof (cases r)
      case (Some e)
      with ca \<open>subscribers p t = Some subs\<close> have "subscribers (fst (CloseTopic t p)) = subscribers p"
        by (simp add: CloseTopic_def)
      with OpCloseTopic assms(2) show ?thesis by (simp add: removes_def listed_def)
    next
      case None
      with ca \<open>subscribers p t = Some subs\<close> have eq: "fst (CloseTopic t p) =
          p\<lparr>chans := h, subscribers := (subscribers p)(t := None)\<rparr>"
        by (simp add: CloseTopic_def)
      from assms(2) OpCloseTopic eq \<open>subscribers p t = Some subs\<close> have "c \<in> set subs"
        by (auto simp: removes_def listed_def split: if_splits option.splits)
      with close_all_closes ca None obtain mb where "h c = Some mb" "closed mb" by blast
      with OpCloseTopic eq show ?thesis by (simp add: is_closed_def)
    qed
  qed
next
  case (OpCloseSubscriber t ch)
  show ?thesis
  proof (cases "subscribers p t")
    case None
    with OpCloseSubscriber assms(2) show ?thesis by (simp add: removes_def CloseSubscriber_def)
  next
    case (Some subs)
    show ?thesis
    proof (cases "index_of subs ch")
      case None
      with Some OpCloseSubscriber assms(2) show ?thesis by (simp add: removes_def CloseSubscriber_def)
    next
      case i: (Some i)
      from index_of_Some [OF i] have il: "i < length subs" "subs ! i = ch" by simp_all
      show ?thesis
      proof (cases "chan_close (chans p) (subs ! i)")
        case (Inl e)
        with Some i OpCloseSubscriber assms(2) show ?thesis by (simp add: removes_def CloseSubscriber_def)
      next
        case (Inr h)
        with Some i have eq: "fst (CloseSubscriber t ch p) =
            p\<lparr>chans := h, subscribers := (subscribers p)(t \<mapsto> take i subs @ drop (Suc i) subs)\<rparr>"
          by (simp add: CloseSubscriber_def)
        from assms(2) OpCloseSubscriber eq Some
        have "c \<in> set subs" "c \<notin> set (take i subs @ drop (Suc i) subs)"
          by (auto simp: removes_def listed_def split: if_splits option.splits)
        with set_without_index [OF il(1)] have "c = subs ! i" by blast
        with chan_close_closes [OF Inr] obtain mb where "h c = Some mb" "closed mb" by blast
        with OpCloseSubscriber eq show ?thesis by (simp add: is_closed_def)
      qed
    qed
  qed
qed

theorem removed_mailbox_closed_witness:
  "removes (OpCloseSubscriber ''t'' 0) (fst (Subscribe ''t'' (CreateTopic ''t'' NewPublisher))) ''t'' 0
   \<and> is_closed (perform_op (OpCloseSubscriber ''t'' 0)
        (fst (Subscribe ''t'' (CreateTopic ''t'' NewPublisher)))) 0"
proof -
  have a: "\<forall>t. OpCloseSubscriber ''t'' 0 = OpCreateTopic t \<longrightarrow>
        listed (fst (Subscribe ''t'' (CreateTopic ''t'' NewPublisher))) t = {}"
    by simp
  have b: "removes (OpCloseSubscriber ''t'' 0) (fst (Subscribe ''t'' (CreateTopic ''t'' NewPublisher))) ''t'' 0"
    by (simp add: removes_def listed_def Subscribe_def make_chan_def CreateTopic_def
          NewPublisher_def CloseSubscriber_def chan_close_def)
  show ?thesis using b removed_mailbox_closed [OF a b] by simp
qed

text \<open>
  Claim C2 says that every operation closes the mailboxes it removes from a
  subscriber list. \<^verbatim>\<open>CreateTopic\<close> does not: after \<^verbatim>\<open>CreateTopic("t")\<close> and
  \<^verbatim>\<open>Subscribe("t")\<close>, a second \<^verbatim>\<open>CreateTopic("t")\<close> replaces the list by an empty one, and
  the subscriber's channel, no longer listed, is still open.
\<close>

theorem CreateTopic_drops_open_mailbox:
  "reachable (perform_op (OpSubscribe ''t'') (perform_op (OpCreateTopic ''t'') NewPublisher))
   \<and> removes (OpCreateTopic ''t'')
        (perform_op (OpSubscribe ''t'') (perform_op (OpCreateTopic ''t'') NewPublisher)) ''t'' 0
   \<and> \<not> is_closed (perform_op (OpCreateTopic ''t'')
        (perform_op (OpSubscribe ''t'') (perform_op (OpCreateTopic ''t'') NewPublisher))) 0"
proof -
  have "reachable (perform_op (OpSubscribe ''t'') (perform_op (OpCreateTopic ''t'') NewPublisher))"
    by (intro reachable.oper reachable.init)
  then show ?thesis
    by (simp add: removes_def listed_def Subscribe_def make_chan_def CreateTopic_def
          NewPublisher_def is_closed_def)
qed



lemma all_open_subset: "all_open p cs \<Longrightarrow> set ds \<subseteq> set cs \<Longrightarrow> all_open p ds"
  by (auto simp: all_open_def)






























lemma receive_all_shape: "same_shape q (receive_all ds q)"
proof (induction ds arbitrary: q)
  case Nil
  show ?case by (simp add: receive_all_def same_shape_refl)
next
  case (Cons d ds)
  have "same_shape q (subscriber_receive d q)" by (rule subscriber_receive_shape)
  moreover have "same_shape (subscriber_receive d q) (receive_all ds (subscriber_receive d q))"
    by (rule Cons.IH)
  ultimately show ?case using same_shape_trans by (simp add: receive_all_def)
qed


lemma receive_history: "history_of (subscriber_receive d q) c = history_of q c"
  unfolding subscriber_receive_def chan_recv_def history_of_def
  by (auto split: option.splits list.splits if_splits)

lemma receive_all_history: "history_of (receive_all ds q) c = history_of q c"
  by (induction ds arbitrary: q) (simp_all add: receive_all_def receive_history)

lemma receive_all_bystander: "bystander (receive_all ds)"
  by (simp add: bystander_def receive_all_shape receive_all_history)



lemma receive_sends_nothing: "sends_nothing (subscriber_receive c)"
  by (simp add: sends_nothing_def receive_history)





lemma perform_op_absent:
  assumes "subscribers p name = None" and "oper \<noteq> OpCreateTopic name"
  shows "subscribers (perform_op oper p) name = None"
proof (cases oper)
  case (OpCreateTopic t)
  with assms show ?thesis by (simp add: CreateTopic_def)
next
  case (OpSubscribe t)
  with assms show ?thesis
    by (auto simp: Subscribe_def make_chan_def split: option.splits)
next
  case (OpPublish t m)
  with assms Publish_shape [of p t m] show ?thesis by (simp add: same_shape_def)
next
  case (OpCloseTopic t)
  with assms show ?thesis
    by (auto simp: CloseTopic_def split: option.splits prod.splits)
next
  case (OpCloseSubscriber t c)
  with assms show ?thesis
    by (auto simp: CloseSubscriber_def split: option.splits sum.splits)
qed

lemma perform_ops_absent:
  "subscribers p name = None \<Longrightarrow> OpCreateTopic name \<notin> set ops \<Longrightarrow>
     subscribers (fold perform_op ops p) name = None"
proof (induction ops arbitrary: p)
  case Nil
  then show ?case by simp
next
  case (Cons oper ops)
  have "subscribers (perform_op oper p) name = None"
    using Cons.prems by (intro perform_op_absent) auto
  with Cons show ?case by simp
qed

lemma absent_calls:
  assumes "subscribers q name = None"
  shows "Publish name message q = (q, PublishReturned (Some ''topic not found''), [])"
    and "snd (Subscribe name q) = (None, Some ''topic not found'')"
    and "CloseTopic name q = (q, Returns (Some ''topic not found''))"
  using assms by (simp_all add: Publish_def Subscribe_def make_chan_def CloseTopic_def)

lemma drained_end_of_stream:
  "chans q c = Some mb \<Longrightarrow> closed mb \<Longrightarrow> n = length (buffer mb) \<Longrightarrow>
     chan_recv (chans ((subscriber_receive c ^^ n) q)) c
       = Received (chans ((subscriber_receive c ^^ n) q)) [] False"
proof (induction n arbitrary: q mb)
  case 0
  then show ?case by (simp add: chan_recv_def)
next
  case (Suc n)
  then obtain m rest where b: "buffer mb = m # rest" by (cases "buffer mb") auto
  let ?q1 = "subscriber_receive c q"
  have q1: "chans ?q1 c = Some (mb\<lparr>buffer := rest\<rparr>)"
    using Suc.prems(1) b by (simp add: subscriber_receive_def chan_recv_def)
  have "chan_recv (chans ((subscriber_receive c ^^ n) ?q1)) c
       = Received (chans ((subscriber_receive c ^^ n) ?q1)) [] False"
    using Suc.prems b by (intro Suc.IH [OF q1]) simp_all
  then show ?case by (simp add: funpow_swap1)
qed

text \<open>
  Claim C8, amended. In every state a broker can be in, \<^verbatim>\<open>CloseTopic\<close> on a name that is
  in the map returns no error, closes every channel listed for it and no other,
  keeping what is buffered, and removes the name from the map. A subscriber's next
  receive yields end of stream when its mailbox is empty and the buffered message
  with \<open>ok = True\<close> otherwise; once the buffered messages have been received, the next
  receive yields end of stream. After that, and after any further operations among
  which none is \<^verbatim>\<open>CreateTopic\<close> on that name, \<^verbatim>\<open>Publish\<close>, \<^verbatim>\<open>Subscribe\<close> and \<^verbatim>\<open>CloseTopic\<close>
  on the name return "topic not found".
\<close>

theorem CloseTopic_closes:
  assumes "reachable p" and "subscribers p name = Some subs"
  shows "\<exists>p'. CloseTopic name p = (p', Returns None)
           \<and> subscribers p' = (subscribers p)(name := None)
           \<and> (\<forall>c\<in>set subs. \<exists>mb. chans p c = Some mb \<and> \<not> closed mb
                \<and> chans p' c = Some (mb\<lparr>closed := True\<rparr>)
                \<and> chan_recv (chans p') c =
                    (case buffer mb of
                       [] \<Rightarrow> Received (chans p') [] False
                     | m # rest \<Rightarrow>
                         Received ((chans p')(c \<mapsto> mb\<lparr>closed := True, buffer := rest\<rparr>)) m True)
                \<and> chan_recv (chans ((subscriber_receive c ^^ length (buffer mb)) p')) c
                    = Received (chans ((subscriber_receive c ^^ length (buffer mb)) p')) [] False)
           \<and> (\<forall>c. c \<notin> set subs \<longrightarrow> chans p' c = chans p c)
           \<and> (\<forall>ops. OpCreateTopic name \<notin> set ops \<longrightarrow>
                Publish name message (fold perform_op ops p')
                  = (fold perform_op ops p', PublishReturned (Some ''topic not found''), [])
                \<and> snd (Subscribe name (fold perform_op ops p')) = (None, Some ''topic not found'')
                \<and> CloseTopic name (fold perform_op ops p')
                  = (fold perform_op ops p', Returns (Some ''topic not found'')))"
proof -
  let ?p' = "p\<lparr>chans := close_in (chans p) (set subs), subscribers := (subscribers p)(name := None)\<rparr>"
  have wf: "well_formed p" using assms(1) by (rule reachable_well_formed)
  have eq: "CloseTopic name p = (?p', Returns None)"
    using wf assms(2) by (rule CloseTopic_well_formed_eq)
  have each: "\<forall>c\<in>set subs. \<exists>mb. chans p c = Some mb \<and> \<not> closed mb
        \<and> chans ?p' c = Some (mb\<lparr>closed := True\<rparr>)
        \<and> chan_recv (chans ?p') c =
            (case buffer mb of
               [] \<Rightarrow> Received (chans ?p') [] False
             | m # rest \<Rightarrow> Received ((chans ?p')(c \<mapsto> mb\<lparr>closed := True, buffer := rest\<rparr>)) m True)
        \<and> chan_recv (chans ((subscriber_receive c ^^ length (buffer mb)) ?p')) c
            = Received (chans ((subscriber_receive c ^^ length (buffer mb)) ?p')) [] False"
  proof
    fix c assume c: "c \<in> set subs"
    with wf assms(2) obtain mb where mb: "chans p c = Some mb" "\<not> closed mb"
      unfolding well_formed_def by blast
    have c': "chans ?p' c = Some (mb\<lparr>closed := True\<rparr>)"
      using c mb by (simp add: close_in_def)
    have rc: "chan_recv (chans ?p') c =
            (case buffer mb of
               [] \<Rightarrow> Received (chans ?p') [] False
             | m # rest \<Rightarrow> Received ((chans ?p')(c \<mapsto> mb\<lparr>closed := True, buffer := rest\<rparr>)) m True)"
      unfolding chan_recv_def c' by (simp split: list.splits)
    have dr: "chan_recv (chans ((subscriber_receive c ^^ length (buffer mb)) ?p')) c
            = Received (chans ((subscriber_receive c ^^ length (buffer mb)) ?p')) [] False"
      by (rule drained_end_of_stream [OF c']) simp_all
    from mb c' rc dr show "\<exists>mb. chans p c = Some mb \<and> \<not> closed mb
        \<and> chans ?p' c = Some (mb\<lparr>closed := True\<rparr>)
        \<and> chan_recv (chans ?p') c =
            (case buffer mb of
               [] \<Rightarrow> Received (chans ?p') [] False
             | m # rest \<Rightarrow> Received ((chans ?p')(c \<mapsto> mb\<lparr>closed := True, buffer := rest\<rparr>)) m True)
        \<and> chan_recv (chans ((subscriber_receive c ^^ length (buffer mb)) ?p')) c
            = Received (chans ((subscriber_receive c ^^ length (buffer mb)) ?p')) [] False"
      by blast
  qed
  have others: "\<forall>c. c \<notin> set subs \<longrightarrow> chans ?p' c = chans p c"
    by (simp add: close_in_def)
  have later: "\<forall>ops. OpCreateTopic name \<notin> set ops \<longrightarrow>
                Publish name message (fold perform_op ops ?p')
                  = (fold perform_op ops ?p', PublishReturned (Some ''topic not found''), [])
                \<and> snd (Subscribe name (fold perform_op ops ?p')) = (None, Some ''topic not found'')
                \<and> CloseTopic name (fold perform_op ops ?p')
                  = (fold perform_op ops ?p', Returns (Some ''topic not found''))"
  proof (intro allI impI)
    fix ops assume "OpCreateTopic name \<notin> set ops"
    moreover have "subscribers ?p' name = None" by simp
    ultimately have "subscribers (fold perform_op ops ?p') name = None"
      by (intro perform_ops_absent)
    then show "Publish name message (fold perform_op ops ?p')
                  = (fold perform_op ops ?p', PublishReturned (Some ''topic not found''), [])
                \<and> snd (Subscribe name (fold perform_op ops ?p')) = (None, Some ''topic not found'')
                \<and> CloseTopic name (fold perform_op ops ?p')
                  = (fold perform_op ops ?p', Returns (Some ''topic not found''))"
      using absent_calls by blast
  qed
  show ?thesis
    apply (rule exI [of _ ?p'])
    using eq each others later by simp
qed

theorem CloseTopic_closes_witness:
  "reachable (perform_op (OpPublish ''news'' ''hi'') (perform_op (OpSubscribe ''news'')
      (perform_op (OpCreateTopic ''news'') NewPublisher)))
   \<and> subscribers (perform_op (OpPublish ''news'' ''hi'') (perform_op (OpSubscribe ''news'')
      (perform_op (OpCreateTopic ''news'') NewPublisher))) ''news'' = Some [0]
   \<and> snd (CloseTopic ''news'' (perform_op (OpPublish ''news'' ''hi'') (perform_op (OpSubscribe ''news'')
      (perform_op (OpCreateTopic ''news'') NewPublisher)))) = Returns None
   \<and> subscribers (fst (CloseTopic ''news'' (perform_op (OpPublish ''news'' ''hi'')
      (perform_op (OpSubscribe ''news'') (perform_op (OpCreateTopic ''news'') NewPublisher))))) ''news''
      = None"
proof -
  let ?p = "perform_op (OpPublish ''news'' ''hi'') (perform_op (OpSubscribe ''news'')
      (perform_op (OpCreateTopic ''news'') NewPublisher))"
  have r: "reachable ?p" by (intro reachable.oper reachable.init)
  have s: "subscribers ?p ''news'' = Some [0]"
    by (simp add: Publish_def Subscribe_def make_chan_def CreateTopic_def NewPublisher_def
          chan_send_def)
  from CloseTopic_closes [OF r s] obtain p' where
    "CloseTopic ''news'' ?p = (p', Returns None)" "subscribers p' = (subscribers ?p)(''news'' := None)"
    by blast
  with r s show ?thesis by simp
qed

text \<open>
  Claim C8 says that after \<^verbatim>\<open>CloseTopic\<close> each subscriber's next receive observes end of
  stream. With a message still buffered it does not: after \<^verbatim>\<open>CreateTopic("news")\<close>,
  \<^verbatim>\<open>Subscribe("news")\<close>, \<^verbatim>\<open>Publish("news", "hi")\<close> and \<^verbatim>\<open>CloseTopic("news")\<close>, the
  subscriber's next receive yields \<^verbatim>\<open>"hi"\<close> with \<open>ok = True\<close>.
\<close>

theorem CloseTopic_buffered_message:
  "reachable (perform_op (OpPublish ''news'' ''hi'') (perform_op (OpSubscribe ''news'')
      (perform_op (OpCreateTopic ''news'') NewPublisher)))
   \<and> subscribers (perform_op (OpPublish ''news'' ''hi'') (perform_op (OpSubscribe ''news'')
      (perform_op (OpCreateTopic ''news'') NewPublisher))) ''news'' = Some [0]
   \<and> (case CloseTopic ''news'' (perform_op (OpPublish ''news'' ''hi'') (perform_op (OpSubscribe ''news'')
      (perform_op (OpCreateTopic ''news'') NewPublisher))) of
        (p', r) \<Rightarrow> r = Returns None
          \<and> (case chan_recv (chans p') 0 of
                Received h m ok \<Rightarrow> m = ''hi'' \<and> ok
              | RecvBlocks \<Rightarrow> False))"
proof -
  have "reachable (perform_op (OpPublish ''news'' ''hi'') (perform_op (OpSubscribe ''news'')
      (perform_op (OpCreateTopic ''news'') NewPublisher)))"
    by (intro reachable.oper reachable.init)
  then show ?thesis
    by (simp add: Publish_def Subscribe_def make_chan_def CreateTopic_def NewPublisher_def
          chan_send_def CloseTopic_def chan_close_def chan_recv_def)
qed

end
